theory Spec2Isabelle
  imports Main "HOL-Library.Sublist" "HOL-Library.AList"
begin

section \<open>Regular expressions as \<open>parse_github_url\<close> uses them\<close>

text \<open>
  \<open>parse_github_url\<close> matches its argument with \<open>re.match\<close> against two patterns,
  \<^verbatim>\<open>git@github\.com:([^/]+)/(.+?)(?:\.git)?$\<close> and
  \<^verbatim>\<open>https://github\.com/([^/]+)/(.+?)(?:\.git)?$\<close>.
  The constructs that occur there are modelled by a backtracking matcher with the
  priorities of Python's \<open>re\<close> module: a greedy quantifier tries the longer match first,
  a lazy one the shorter, the optional group tries its body first. Strings are lists of
  8-bit characters.
\<close>

text \<open>The line feed, the only character \<open>.\<close> refuses and the only one \<open>$\<close> tolerates
  after its position.\<close>

definition newline :: char where
  "newline = CHR 0x0A"

text \<open>One-character matchers: a literal (also the escaped \<^verbatim>\<open>\.\<close>), the dot
  (no \<open>DOTALL\<close> flag: anything but a line feed), and a negated one-character class
  such as \<^verbatim>\<open>[^/]\<close> (which accepts the line feed too).\<close>

datatype cls = Lit char | Dot | NotCh char

fun cls_ok :: "cls \<Rightarrow> char \<Rightarrow> bool" where
  "cls_ok (Lit c) x = (x = c)"
| "cls_ok Dot x = (x \<noteq> newline)"
| "cls_ok (NotCh c) x = (x \<noteq> c)"

datatype greed = Greedy | Lazy

text \<open>
  A pattern is a sequence of items. \<open>Plus g c\<close> is \<open>c+\<close> (\<open>Greedy\<close>) or \<open>c+?\<close>
  (\<open>Lazy\<close>); \<open>Star g c\<close> is what remains of a \<open>Plus\<close> after its first character;
  \<open>OptLit w\<close> is the greedy optional non-capturing group \<^verbatim>\<open>(?:w)?\<close> of a literal
  word; \<open>GOpen\<close> and \<open>GClose\<close> are the parentheses of a capturing group; \<open>Eol\<close> is
  \<open>$\<close> without the \<open>MULTILINE\<close> flag.
\<close>

datatype item = Ch cls | Plus greed cls | Star greed cls | OptLit string
  | GOpen | GClose | Eol

text \<open>
  \<open>re_run items s opens caps\<close> matches \<open>items\<close> at the front of the remaining input
  \<open>s\<close>. \<open>opens\<close> holds, for every group that is open, the input that remained when it
  was opened; \<open>caps\<close> holds the texts of the groups closed so far, in order. The result
  is \<open>None\<close> when every alternative fails, and the groups of the first alternative
  that succeeds otherwise. As with \<open>re.match\<close>, the match is anchored at the start only.
\<close>

fun re_run :: "item list \<Rightarrow> string \<Rightarrow> string list \<Rightarrow> string list \<Rightarrow> string list option" where
  "re_run [] s opens caps = Some caps"
| "re_run (Ch c # k) [] opens caps = None"
| "re_run (Ch c # k) (x # xs) opens caps =
     (if cls_ok c x then re_run k xs opens caps else None)"
| "re_run (Plus g c # k) [] opens caps = None"
| "re_run (Plus g c # k) (x # xs) opens caps =
     (if cls_ok c x then re_run (Star g c # k) xs opens caps else None)"
| "re_run (Star Greedy c # k) [] opens caps = re_run k [] opens caps"
| "re_run (Star Greedy c # k) (x # xs) opens caps =
     (if cls_ok c x
      then (case re_run (Star Greedy c # k) xs opens caps of
              Some r \<Rightarrow> Some r
            | None \<Rightarrow> re_run k (x # xs) opens caps)
      else re_run k (x # xs) opens caps)"
| "re_run (Star Lazy c # k) [] opens caps = re_run k [] opens caps"
| "re_run (Star Lazy c # k) (x # xs) opens caps =
     (case re_run k (x # xs) opens caps of
        Some r \<Rightarrow> Some r
      | None \<Rightarrow> (if cls_ok c x then re_run (Star Lazy c # k) xs opens caps else None))"
| "re_run (OptLit w # k) s opens caps =
     (case (if prefix w s then re_run k (drop (length w) s) opens caps else None) of
        Some r \<Rightarrow> Some r
      | None \<Rightarrow> re_run k s opens caps)"
| "re_run (GOpen # k) s opens caps = re_run k s (s # opens) caps"
| "re_run (GClose # k) s [] caps = None"
| "re_run (GClose # k) s (s0 # opens) caps =
     re_run k s opens (caps @ [take (length s0 - length s) s0])"
| "re_run (Eol # k) s opens caps =
     (if s = [] \<or> s = [newline] then re_run k s opens caps else None)"

text \<open>\<open>re.match(pattern, url)\<close> followed by \<open>match.groups()\<close>.\<close>

definition re_match :: "item list \<Rightarrow> string \<Rightarrow> string list option" where
  "re_match p url = re_run p url [] []"

text \<open>A run of literal characters.\<close>

definition lits :: "string \<Rightarrow> item list" where
  "lits w = map (\<lambda>c. Ch (Lit c)) w"

section \<open>The scanner: \<open>GitHubRepoScanner\<close>\<close>

subsection \<open>\<open>parse_github_url\<close>\<close>

definition ssh_prefix :: string where
  "ssh_prefix = ''git@github.com:''"

definition https_prefix :: string where
  "https_prefix = ''https://github.com/''"

text \<open>What follows the host in both patterns:
  \<^verbatim>\<open>([^/]+)/(.+?)(?:\.git)?$\<close>.\<close>

definition owner_repo_pattern :: "item list" where
  "owner_repo_pattern =
     [GOpen, Plus Greedy (NotCh CHR ''/''), GClose, Ch (Lit CHR ''/''),
      GOpen, Plus Lazy Dot, GClose, OptLit ''.git'', Eol]"

definition ssh_pattern :: "item list" where
  "ssh_pattern = lits ssh_prefix @ owner_repo_pattern"

definition https_pattern :: "item list" where
  "https_pattern = lits https_prefix @ owner_repo_pattern"

text \<open>The dictionary \<open>parse_github_url\<close> returns, with its three keys.\<close>

record repo_info =
  owner :: string
  repo :: string
  full_name :: string

text \<open>
  The loop \<^verbatim>\<open>for pattern in [ssh_pattern, https_pattern]\<close>: the first pattern
  that matches decides. \<^verbatim>\<open>owner, repo = match.groups()\<close> unpacks exactly two
  groups, which both patterns have.
\<close>

fun try_patterns :: "item list list \<Rightarrow> string \<Rightarrow> repo_info option" where
  "try_patterns [] url = None"
| "try_patterns (p # ps) url =
     (case re_match p url of
        Some [ow, rp] \<Rightarrow>
          Some \<lparr>owner = ow, repo = rp, full_name = ow @ ''/'' @ rp\<rparr>
      | Some _ \<Rightarrow> None
      | None \<Rightarrow> try_patterns ps url)"

definition parse_github_url :: "string \<Rightarrow> repo_info option" where
  "parse_github_url url =
     (if url = [] then None else try_patterns [ssh_pattern, https_pattern] url)"

subsection \<open>The file system and \<open>is_git_repository\<close>\<close>

text \<open>
  The part of the file system the scanner reads: a tree of directories and regular
  files, a directory listing its entries in the order \<open>os.scandir\<close> reports them.
  Symbolic links and unreadable directories are not modelled. A path is the list of
  its components below the root of the tree.
\<close>

datatype fsnode = File | Dir "(string \<times> fsnode) list"

type_synonym path = "string list"

fun lookup :: "fsnode \<Rightarrow> path \<Rightarrow> fsnode option" where
  "lookup n [] = Some n"
| "lookup File (d # p) = None"
| "lookup (Dir es) (d # p) =
     (case map_of es d of None \<Rightarrow> None | Some c \<Rightarrow> lookup c p)"

text \<open>\<open>Path.exists()\<close>: something, of either kind, is at the path.\<close>

definition path_exists :: "fsnode \<Rightarrow> path \<Rightarrow> bool" where
  "path_exists fs p = (lookup fs p \<noteq> None)"

text \<open>\<^verbatim>\<open>return (path / '.git').exists()\<close>\<close>

definition is_git_repository :: "fsnode \<Rightarrow> path \<Rightarrow> bool" where
  "is_git_repository fs p = path_exists fs (p @ [''.git''])"

subsection \<open>\<open>get_remote_url\<close>\<close>

text \<open>
  \<open>str.strip()\<close> removes white space at both ends; on characters below 256 Python
  counts as white space the codes 9 to 13, 28 to 32, 133 and 160.
\<close>

definition py_isspace :: "char \<Rightarrow> bool" where
  "py_isspace c =
     (let n = (of_char c :: nat)
      in (9 \<le> n \<and> n \<le> 13) \<or> (28 \<le> n \<and> n \<le> 32) \<or> n = 133 \<or> n = 160)"

definition strip :: "string \<Rightarrow> string" where
  "strip s = rev (dropWhile py_isspace (rev (dropWhile py_isspace s)))"

text \<open>
  The version-control tool is a collaborator: \<open>git repo_path remote_name\<close> is the
  standard output of \<^verbatim>\<open>git -C repo_path remote get-url remote_name\<close>, or \<open>None\<close>
  when the tool exits with an error (\<open>CalledProcessError\<close>, which the method catches).
\<close>

type_synonym git_tool = "path \<Rightarrow> string \<Rightarrow> string option"

definition get_remote_url :: "git_tool \<Rightarrow> path \<Rightarrow> string \<Rightarrow> string option" where
  "get_remote_url git repo_path remote_name =
     (case git repo_path remote_name of
        Some stdout \<Rightarrow> Some (strip stdout)
      | None \<Rightarrow> None)"

subsection \<open>\<open>scan_directory\<close>\<close>

text \<open>The value stored in \<open>local_repos\<close> under a full name, with the keys
  \<open>path\<close>, \<open>owner\<close>, \<open>repo\<close> and \<open>url\<close> of the source; \<open>local_path\<close> holds
  \<open>root_path\<close> (the source stores its string form).\<close>

record local_info =
  local_path :: path
  local_owner :: string
  local_repo :: string
  local_url :: string

text \<open>
  \<open>os.walk\<close>, top-down, together with what the loop body does to \<open>dirs\<close>. At a
  directory \<open>root\<close> the walk yields once; \<open>dirs\<close> holds the names of the entries that
  are directories. The body keeps of them those for which \<open>keep_dir\<close> holds (line 95)
  and, when \<open>root\<close> is a git repository, clears the list (line 114); the walk then
  visits the directories that remain, in order. \<open>walk fs root n\<close> is the sequence of
  values \<open>root\<close> takes in the loop, for \<open>n\<close> the node at \<open>root\<close>.
\<close>

definition keep_dir :: "string \<Rightarrow> bool" where
  "keep_dir d = (\<not> prefix ''.'' d \<or> d = ''.git'')"

fun is_dir_node :: "fsnode \<Rightarrow> bool" where
  "is_dir_node File = False"
| "is_dir_node (Dir es) = True"

fun walk :: "fsnode \<Rightarrow> path \<Rightarrow> fsnode \<Rightarrow> path list"
  and walk_dirs :: "fsnode \<Rightarrow> path \<Rightarrow> (string \<times> fsnode) list \<Rightarrow> path list" where
  "walk fs root File = []"
| "walk fs root (Dir es) =
     root # (if is_git_repository fs root then [] else walk_dirs fs root es)"
| "walk_dirs fs root [] = []"
| "walk_dirs fs root (e # es) =
     (if is_dir_node (snd e) \<and> keep_dir (fst e)
      then walk fs (root @ [fst e]) (snd e) else [])
     @ walk_dirs fs root es"

text \<open>What the scanner and the migrator print: one constructor for each message of
  the source (the colours left out; the four lines of the migration summary are one
  message), with the values it interpolates. The text \<open>gh\<close> wrote to its standard
  error, which \<open>MsgGhError\<close> would show, is not modelled.\<close>

datatype json = JNull | JBool bool | JNum int | JStr string
  | JArr "json list" | JObj "(string \<times> json) list"

datatype msg =
    MsgScanning path
  | MsgFound string path
  | MsgFoundCount nat
  | MsgFetching string
  | MsgGhError
  | MsgForkCount nat
  | MsgNoForks
  | MsgSummary nat nat nat
  | MsgSkippingHeader
  | MsgSkippedLocal string path
  | MsgBlank
  | MsgNothingToMigrate
  | MsgAboutToMigrate nat string
  | MsgCancelled
  | MsgStarting
  | MsgWouldFork json
  | MsgForking json
  | MsgForked string
  | MsgForkFailed
  | MsgNoParent string
  | MsgComplete
  | MsgSuccessful nat
  | MsgFailed nat

text \<open>The scanner's state: \<open>self.local_repos\<close>, a dictionary in insertion order, and
  the lines printed.\<close>

record scan_state =
  local_repos :: "(string \<times> local_info) list"
  printed :: "msg list"

text \<open>The body of the loop for one \<open>root\<close> (lines 99 to 111).\<close>

definition scan_step :: "fsnode \<Rightarrow> git_tool \<Rightarrow> scan_state \<Rightarrow> path \<Rightarrow> scan_state" where
  "scan_step fs git st root_path =
     (if is_git_repository fs root_path
      then (case get_remote_url git root_path ''origin'' of
              None \<Rightarrow> st
            | Some remote_url \<Rightarrow>
                if remote_url = [] then st
                else (case parse_github_url remote_url of
                        None \<Rightarrow> st
                      | Some repo_info \<Rightarrow>
                          st\<lparr>local_repos :=
                               AList.update (full_name repo_info)
                                 \<lparr>local_path = root_path, local_owner = owner repo_info,
                                  local_repo = repo repo_info, local_url = remote_url\<rparr>
                                 (local_repos st),
                             printed := printed st @
                               [MsgFound (full_name repo_info) root_path]\<rparr>))
      else st)"

text \<open>The directories the loop of \<open>scan_directory\<close> runs through, from \<open>base_path\<close>.\<close>

definition scan_roots :: "fsnode \<Rightarrow> path \<Rightarrow> path list" where
  "scan_roots fs base_path =
     (case lookup fs base_path of None \<Rightarrow> [] | Some n \<Rightarrow> walk fs base_path n)"

definition scan_directory ::
  "fsnode \<Rightarrow> git_tool \<Rightarrow> path \<Rightarrow> scan_state \<Rightarrow> (string \<times> local_info) list \<times> scan_state" where
  "scan_directory fs git base_path st =
     (let st1 = st\<lparr>printed := printed st @ [MsgScanning base_path]\<rparr>;
          st2 = foldl (scan_step fs git) st1 (scan_roots fs base_path);
          st3 = st2\<lparr>printed := printed st2 @ [MsgFoundCount (length (local_repos st2))]\<rparr>
      in (local_repos st3, st3))"

section \<open>The migrator: \<open>GitHubRepoMigrator\<close>\<close>

subsection \<open>Data\<close>

text \<open>
  One element of the list \<open>get_forked_repositories\<close> returns, as \<open>gh\<close> writes it for
  \<^verbatim>\<open>--json name,nameWithOwner,isFork,parent,url\<close>. The code reads
  \<open>nameWithOwner\<close> and \<open>parent\<close>. The value under \<open>parent\<close> is kept as decoded JSON,
  \<open>None\<close> standing for an object without that key: JSON \<open>null\<close> is \<open>Some JNull\<close>.
  The items of a \<open>JObj\<close> carry each key once; JSON numbers are restricted to integers.
\<close>

record fork =
  name :: string
  nameWithOwner :: string
  isFork :: bool
  parent :: "json option"
  fork_url :: string

datatype error = AttributeError | KeyError | EOFError

text \<open>The four attributes \<open>__init__\<close> stores.\<close>

record migrator =
  source_token :: string
  target_token :: string
  source_username :: string
  target_username :: string

text \<open>
  What lies outside the program. \<open>gh history args token\<close> is the standard output of
  the GitHub CLI run with \<open>args\<close> and \<open>GH_TOKEN = token\<close> after the invocations in
  \<open>history\<close>, or \<open>None\<close> when it exits with an error; \<open>json_loads\<close> decodes the listing;
  \<open>stdin_line\<close> is what \<open>input\<close> reads from the operator, \<open>None\<close> at end of input.
\<close>

record env =
  gh :: "(string list \<times> string) list \<Rightarrow> string list \<Rightarrow> string \<Rightarrow> string option"
  json_loads :: "string \<Rightarrow> fork list"
  stdin_line :: "string option"

text \<open>The effects of a run: the invocations of \<open>gh\<close> made, oldest first, each with
  its arguments and token, and the lines printed.\<close>

record mstate =
  calls :: "(string list \<times> string) list"
  out :: "msg list"

definition say :: "msg \<Rightarrow> mstate \<Rightarrow> mstate" where
  "say x st = st\<lparr>out := out st @ [x]\<rparr>"

subsection \<open>\<open>run_gh_command\<close> and \<open>get_forked_repositories\<close>\<close>

definition run_gh_command ::
  "env \<Rightarrow> string list \<Rightarrow> string \<Rightarrow> mstate \<Rightarrow> string option \<times> mstate" where
  "run_gh_command e args token st =
     (let st1 = st\<lparr>calls := calls st @ [(args, token)]\<rparr>
      in case gh e (calls st) args token of
           Some stdout \<Rightarrow> (Some stdout, st1)
         | None \<Rightarrow> (None, say MsgGhError st1))"

definition list_args :: "migrator \<Rightarrow> string list" where
  "list_args m =
     [''repo'', ''list'', source_username m, ''--fork'', ''--json'',
      ''name,nameWithOwner,isFork,parent,url'', ''--limit'', ''1000'']"

definition get_forked_repositories :: "migrator \<Rightarrow> env \<Rightarrow> mstate \<Rightarrow> fork list \<times> mstate" where
  "get_forked_repositories m e st =
     (case run_gh_command e (list_args m) (source_token m)
             (say (MsgFetching (source_username m)) st) of
        (None, st1) \<Rightarrow> ([], st1)
      | (Some output, st1) \<Rightarrow>
          if output = [] then ([], st1)
          else (let repos = json_loads e output
                in (repos, say (MsgForkCount (length repos)) st1)))"

subsection \<open>\<open>fork_repository\<close>\<close>

text \<open>\<^verbatim>\<open>repo_full_name.split('/')[-1]\<close>: what follows the last slash.\<close>

definition last_segment :: "string \<Rightarrow> string" where
  "last_segment s = rev (takeWhile (\<lambda>c. c \<noteq> CHR ''/'') (rev s))"

definition fork_args :: "string \<Rightarrow> string list" where
  "fork_args repo_full_name =
     [''repo'', ''fork'', repo_full_name, ''--fork-name'', last_segment repo_full_name]"

text \<open>
  The argument is whatever \<open>migrate_repositories\<close> found under \<open>nameWithOwner\<close> of
  the parent. Outside a dry run the method calls \<open>split\<close> on it, which only a string
  has: any other value raises \<open>AttributeError\<close>, after the line \<open>Forking\<close> is printed.
\<close>

definition fork_repository ::
  "migrator \<Rightarrow> env \<Rightarrow> json \<Rightarrow> bool \<Rightarrow> mstate \<Rightarrow> (error + bool) \<times> mstate" where
  "fork_repository m e repo_full_name dry_run st =
     (if dry_run then (Inr True, say (MsgWouldFork repo_full_name) st)
      else (let st1 = say (MsgForking repo_full_name) st
            in case repo_full_name of
                 JStr s \<Rightarrow>
                   (case run_gh_command e (fork_args s) (target_token m) st1 of
                      (Some output, st2) \<Rightarrow>
                        if output \<noteq> [] then (Inr True, say (MsgForked (target_username m)) st2)
                        else (Inr False, say MsgForkFailed st2)
                    | (None, st2) \<Rightarrow> (Inr False, say MsgForkFailed st2))
               | _ \<Rightarrow> (Inl AttributeError, st1)))"

subsection \<open>\<open>migrate_repositories\<close>\<close>

text \<open>
  Lines 198 to 206: the loop that sorts the listing (each element \<open>r\<close> is the source's \<open>repo\<close>) into \<open>repos_to_migrate\<close> (the
  records) and \<open>repos_skipped\<close> (the names), appending as it goes.
\<close>

fun filter_repositories ::
  "string set \<Rightarrow> fork list \<Rightarrow> fork list \<times> string list \<Rightarrow> fork list \<times> string list" where
  "filter_repositories local_repo_names [] acc = acc"
| "filter_repositories local_repo_names (r # rest) (repos_to_migrate, repos_skipped) =
     (if nameWithOwner r \<in> local_repo_names
      then filter_repositories local_repo_names rest
             (repos_to_migrate, repos_skipped @ [nameWithOwner r])
      else filter_repositories local_repo_names rest
             (repos_to_migrate @ [r], repos_skipped))"

text \<open>Lines 216 to 218: one line for each skipped name, with
  \<^verbatim>\<open>local_repos[repo_name]['path']\<close>. The parameter \<open>local_repos\<close> of the
  migrator is written \<open>lrepos\<close>.\<close>

fun print_skipped ::
  "(string \<times> local_info) list \<Rightarrow> string list \<Rightarrow> mstate \<Rightarrow> (error + unit) \<times> mstate" where
  "print_skipped lrepos [] st = (Inr (), st)"
| "print_skipped lrepos (repo_name # rest) st =
     (case map_of lrepos repo_name of
        None \<Rightarrow> (Inl KeyError, st)
      | Some info \<Rightarrow>
          print_skipped lrepos rest (say (MsgSkippedLocal repo_name (local_path info)) st))"

text \<open>Truth of a decoded JSON value, as \<^verbatim>\<open>if parent_repo:\<close> tests it.\<close>

fun truthy :: "json \<Rightarrow> bool" where
  "truthy JNull = False"
| "truthy (JBool b) = b"
| "truthy (JNum n) = (n \<noteq> 0)"
| "truthy (JStr s) = (s \<noteq> [])"
| "truthy (JArr xs) = (xs \<noteq> [])"
| "truthy (JObj kvs) = (kvs \<noteq> [])"

text \<open>
  \<^verbatim>\<open>repo.get('parent', {}).get('nameWithOwner')\<close>. The default \<open>{}\<close> replaces a
  missing key only; a value that is present is returned as it is, and only an object
  has the method \<open>get\<close>. The second \<open>get\<close> yields \<open>None\<close>, here \<open>JNull\<close>, for a missing key.
\<close>

definition parent_repo_of :: "fork \<Rightarrow> error + json" where
  "parent_repo_of r =
     (case (case parent r of None \<Rightarrow> JObj [] | Some v \<Rightarrow> v) of
        JObj kvs \<Rightarrow>
          Inr (case map_of kvs ''nameWithOwner'' of None \<Rightarrow> JNull | Some v \<Rightarrow> v)
      | _ \<Rightarrow> Inl AttributeError)"

text \<open>Lines 238 to 247, with the counters \<open>successful\<close> and \<open>failed\<close>.\<close>

fun migrate_loop ::
  "migrator \<Rightarrow> env \<Rightarrow> bool \<Rightarrow> fork list \<Rightarrow> nat \<times> nat \<Rightarrow> mstate \<Rightarrow> (error + nat \<times> nat) \<times> mstate" where
  "migrate_loop m e dry_run [] (successful, failed) st = (Inr (successful, failed), st)"
| "migrate_loop m e dry_run (r # rest) (successful, failed) st =
     (case parent_repo_of r of
        Inl err \<Rightarrow> (Inl err, st)
      | Inr parent_repo \<Rightarrow>
          if truthy parent_repo
          then (case fork_repository m e parent_repo dry_run st of
                  (Inl err, st1) \<Rightarrow> (Inl err, st1)
                | (Inr True, st1) \<Rightarrow> migrate_loop m e dry_run rest (successful + 1, failed) st1
                | (Inr False, st1) \<Rightarrow> migrate_loop m e dry_run rest (successful, failed + 1) st1)
          else migrate_loop m e dry_run rest (successful, failed)
                 (say (MsgNoParent (nameWithOwner r)) st))"

text \<open>\<open>str.lower()\<close> on characters below 256: the capital letters of ASCII and of
  Latin-1 (192 to 222 without the multiplication sign 215) move up by 32.\<close>

definition py_lower_char :: "char \<Rightarrow> char" where
  "py_lower_char c =
     (let n = (of_char c :: nat)
      in if (65 \<le> n \<and> n \<le> 90) \<or> (192 \<le> n \<and> n \<le> 222 \<and> n \<noteq> 215)
         then char_of (n + 32) else c)"

definition py_lower :: "string \<Rightarrow> string" where
  "py_lower s = map py_lower_char s"

text \<open>Lines 226 to 231: the confirmation. The result says whether to go on.\<close>

definition confirm_migration ::
  "migrator \<Rightarrow> env \<Rightarrow> nat \<Rightarrow> mstate \<Rightarrow> (error + bool) \<times> mstate" where
  "confirm_migration m e n st =
     (let st1 = say (MsgAboutToMigrate n (target_username m)) st
      in case stdin_line e of
           None \<Rightarrow> (Inl EOFError, st1)
         | Some confirm \<Rightarrow>
             if py_lower confirm \<noteq> ''y'' then (Inr False, say MsgCancelled st1)
             else (Inr True, st1))"

text \<open>Lines 233 to 253: the migration and the final summary.\<close>

definition perform_migration ::
  "migrator \<Rightarrow> env \<Rightarrow> bool \<Rightarrow> fork list \<Rightarrow> mstate \<Rightarrow> (error + unit) \<times> mstate" where
  "perform_migration m e dry_run repos_to_migrate st =
     (case migrate_loop m e dry_run repos_to_migrate (0, 0) (say MsgStarting st) of
        (Inl err, st1) \<Rightarrow> (Inl err, st1)
      | (Inr (successful, failed), st1) \<Rightarrow>
          (let st2 = say (MsgSuccessful successful) (say MsgComplete st1)
           in (Inr (), if failed > 0 then say (MsgFailed failed) st2 else st2)))"

definition migrate_repositories ::
  "migrator \<Rightarrow> env \<Rightarrow> (string \<times> local_info) list \<Rightarrow> bool \<Rightarrow> mstate \<Rightarrow> (error + unit) \<times> mstate" where
  "migrate_repositories m e lrepos dry_run st =
     (case get_forked_repositories m e st of (forked_repos, st1) \<Rightarrow>
        if forked_repos = [] then (Inr (), say MsgNoForks st1)
        else
          (case filter_repositories (set (map fst lrepos)) forked_repos ([], []) of
             (repos_to_migrate, repos_skipped) \<Rightarrow>
               (case (if repos_skipped \<noteq> []
                      then (case print_skipped lrepos repos_skipped
                                   (say MsgSkippingHeader
                                      (say (MsgSummary (length forked_repos)
                                              (length repos_to_migrate) (length repos_skipped)) st1)) of
                              (Inl err, st2) \<Rightarrow> (Inl err, st2)
                            | (Inr u, st2) \<Rightarrow> (Inr u, say MsgBlank st2))
                      else (Inr (), say (MsgSummary (length forked_repos)
                                           (length repos_to_migrate) (length repos_skipped)) st1)) of
                  (Inl err, st2) \<Rightarrow> (Inl err, st2)
                | (Inr u, st2) \<Rightarrow>
                    if repos_to_migrate = [] then (Inr (), say MsgNothingToMigrate st2)
                    else if dry_run then perform_migration m e dry_run repos_to_migrate st2
                    else (case confirm_migration m e (length repos_to_migrate) st2 of
                            (Inl err, st3) \<Rightarrow> (Inl err, st3)
                          | (Inr False, st3) \<Rightarrow> (Inr (), st3)
                          | (Inr True, st3) \<Rightarrow>
                              perform_migration m e dry_run repos_to_migrate st3))))"

section \<open>Notions used in the statements and proofs\<close>

text \<open>
  Where the lazy group \<^verbatim>\<open>(.+?)\<close> may stop: what remains must be matched by
  \<^verbatim>\<open>(?:\.git)?$\<close>. \<open>lazy_stop s\<close> is the first such remainder of \<open>s\<close> that the
  search reaches, \<open>None\<close> when a line feed comes first.
\<close>

definition end_ok :: "string \<Rightarrow> bool" where
  "end_ok s = (s = [] \<or> s = [newline] \<or> s = ''.git'' \<or> s = ''.git'' @ [newline])"

fun lazy_stop :: "string \<Rightarrow> string option" where
  "lazy_stop [] = Some []"
| "lazy_stop (x # xs) =
     (if end_ok (x # xs) then Some (x # xs)
      else if x = newline then None else lazy_stop xs)"

text \<open>
  Kinds of file-system entries, to tell what \<open>is_git_repository\<close> sees: \<open>is_dir\<close> is
  \<open>Path.is_dir()\<close>, \<open>is_file\<close> is \<open>Path.is_file()\<close>.
\<close>

definition is_dir :: "fsnode \<Rightarrow> path \<Rightarrow> bool" where
  "is_dir fs p = (case lookup fs p of Some (Dir es) \<Rightarrow> True | _ \<Rightarrow> False)"

definition is_file :: "fsnode \<Rightarrow> path \<Rightarrow> bool" where
  "is_file fs p = (lookup fs p = Some File)"

text \<open>A checkout whose \<^verbatim>\<open>.git\<close> is a regular file, as git writes it for a linked
  worktree or a submodule.\<close>

definition worktree_fs :: fsnode where
  "worktree_fs = Dir [(''proj'', Dir [(''.git'', File), (''main.py'', File)])]"

text \<open>A well-formed tree: no directory lists a name twice.\<close>

fun wf_node :: "fsnode \<Rightarrow> bool" and wf_entries :: "(string \<times> fsnode) list \<Rightarrow> bool" where
  "wf_node File = True"
| "wf_node (Dir es) = (distinct (map fst es) \<and> wf_entries es)"
| "wf_entries [] = True"
| "wf_entries (e # es) = (wf_node (snd e) \<and> wf_entries es)"

text \<open>
  The example of the leaf-repository invariant: a repository at \<^verbatim>\<open>/a/b\<close> that
  contains a nested repository at \<^verbatim>\<open>/a/b/vendor/c\<close>, each with a GitHub origin,
  scanned from \<^verbatim>\<open>/a\<close>.
\<close>

definition nested_fs :: fsnode where
  "nested_fs =
     Dir [(''a'', Dir [(''b'', Dir [(''.git'', Dir [(''config'', File)]),
                                   (''src'', Dir [(''main.py'', File)]),
                                   (''vendor'', Dir [(''c'', Dir [(''.git'', Dir [])])])])])]"

definition nested_git :: git_tool where
  "nested_git p r =
     (if r = ''origin'' \<and> p = [''a'', ''b'']
      then Some (''https://github.com/acme/widget.git'' @ [newline])
      else if r = ''origin'' \<and> p = [''a'', ''b'', ''vendor'', ''c'']
      then Some (''git@github.com:lib/dep.git'' @ [newline])
      else None)"

text \<open>Three records of a fork listing, for the examples.\<close>

definition forkA :: fork where
  "forkA = \<lparr>name = ''a'', nameWithOwner = ''alice/a'', isFork = True,
            parent = Some (JObj [(''nameWithOwner'', JStr ''up/a'')]), fork_url = ''''\<rparr>"
definition forkB :: fork where
  "forkB = \<lparr>name = ''b'', nameWithOwner = ''alice/b'', isFork = True,
            parent = None, fork_url = ''''\<rparr>"
definition forkC :: fork where
  "forkC = \<lparr>name = ''c'', nameWithOwner = ''alice/c'', isFork = True,
            parent = Some JNull, fork_url = ''''\<rparr>"

text \<open>
  Two more values for the examples: the accounts of a run, and a world where the
  \<^verbatim>\<open>gh\<close> tool answers every call, the fork listing decodes to \<open>forks\<close> and the
  terminal holds the line \<open>reply\<close>.
\<close>

definition example_migrator :: migrator where
  "example_migrator = \<lparr>source_token = ''src-token'', target_token = ''tgt-token'',
                       source_username = ''alice'', target_username = ''bob''\<rparr>"

definition example_env :: "fork list \<Rightarrow> string option \<Rightarrow> env" where
  "example_env forks reply =
     \<lparr>gh = (\<lambda>history args token. Some ''ok''), json_loads = (\<lambda>output. forks),
      stdin_line = reply\<rparr>"

definition empty_state :: mstate where
  "empty_state = \<lparr>calls = [], out = []\<rparr>"

text \<open>
  What line 240 reads from a record. \<open>parent_is_object\<close>: the key \<^verbatim>\<open>parent\<close> is
  missing or holds an object, so that both \<open>get\<close> calls return. \<open>parent_name\<close> is the
  value of \<^verbatim>\<open>parent_repo\<close> then, and \<open>has_parent\<close> the test \<^verbatim>\<open>if parent_repo:\<close>.
\<close>

definition parent_is_object :: "fork \<Rightarrow> bool" where
  "parent_is_object r = (case parent r of None \<Rightarrow> True | Some (JObj kvs) \<Rightarrow> True | Some _ \<Rightarrow> False)"

definition parent_name :: "fork \<Rightarrow> json" where
  "parent_name r = (case parent_repo_of r of Inr v \<Rightarrow> v | Inl err \<Rightarrow> JNull)"

definition has_parent :: "fork \<Rightarrow> bool" where
  "has_parent r = truthy (parent_name r)"

fun is_str :: "json \<Rightarrow> bool" where
  "is_str (JStr s) = True"
| "is_str _ = False"

fun str_of :: "json \<Rightarrow> string" where
  "str_of (JStr s) = s"
| "str_of _ = []"

text \<open>
  A record on which one turn of the loop raises nothing: its parent is read without
  error and, when a fork is really made, the parent's name is a string, as
  \<open>fork_repository\<close> splits it at the slash.
\<close>

definition loop_safe :: "bool \<Rightarrow> fork \<Rightarrow> bool" where
  "loop_safe dry_run r =
     (parent_is_object r \<and> (dry_run \<or> \<not> has_parent r \<or> is_str (parent_name r)))"

text \<open>
  Readings of the printed lines and of the log of \<^verbatim>\<open>gh\<close> calls: the identity a
  fork line names, the name a no-parent diagnostic names, whether a line belongs to
  the final tally, and the \<^verbatim>\<open>gh repo fork\<close> call made for a record.
\<close>

fun fork_target :: "msg \<Rightarrow> json option" where
  "fork_target (MsgWouldFork p) = Some p"
| "fork_target (MsgForking p) = Some p"
| "fork_target _ = None"

fun no_parent_name :: "msg \<Rightarrow> string option" where
  "no_parent_name (MsgNoParent n) = Some n"
| "no_parent_name _ = None"

fun is_tally :: "msg \<Rightarrow> bool" where
  "is_tally (MsgSuccessful n) = True"
| "is_tally (MsgFailed n) = True"
| "is_tally _ = False"

definition fork_call :: "migrator \<Rightarrow> fork \<Rightarrow> string list \<times> string" where
  "fork_call m r = (fork_args (str_of (parent_name r)), target_token m)"

text \<open>
  The line a dry run prints for a record, and the lines of lines 208 to 219: the
  summary and the skipped names.
\<close>

definition dry_line :: "fork \<Rightarrow> msg" where
  "dry_line r = (if has_parent r then MsgWouldFork (parent_name r)
                 else MsgNoParent (nameWithOwner r))"

fun skipped_lines :: "(string \<times> local_info) list \<Rightarrow> string list \<Rightarrow> msg list" where
  "skipped_lines lrepos [] = []"
| "skipped_lines lrepos (n # ns) =
     (case map_of lrepos n of
        None \<Rightarrow> []
      | Some info \<Rightarrow> MsgSkippedLocal n (local_path info) # skipped_lines lrepos ns)"

definition summary_lines :: "(string \<times> local_info) list \<Rightarrow> fork list \<Rightarrow> fork list \<Rightarrow> string list \<Rightarrow> msg list" where
  "summary_lines lrepos forks tm sk =
     MsgSummary (length forks) (length tm) (length sk) #
     (if sk \<noteq> [] then MsgSkippingHeader # skipped_lines lrepos sk @ [MsgBlank] else [])"

section \<open>The URL parser\<close>

subsection \<open>The matcher on the two patterns\<close>

lemma re_run_lits:
  "re_run (lits w @ k) s opens caps =
     (if prefix w s then re_run k (drop (length w) s) opens caps else None)"
proof (induction w arbitrary: s)
  case Nil
  show ?case by (simp add: lits_def)
next
  case (Cons c w)
  show ?case
  proof (cases s)
    case Nil
    then show ?thesis by (simp add: lits_def)
  next
    case (Cons x xs)
    with Cons.IH [of xs] show ?thesis by (simp add: lits_def)
  qed
qed

lemma re_run_tail:
  "re_run [OptLit ''.git'', Eol] s opens caps = (if end_ok s then Some caps else None)"
  by (auto simp: end_ok_def prefix_def newline_def)

lemma re_run_lazy:
  "re_run (Star Lazy Dot # GClose # [OptLit ''.git'', Eol]) s (t # opens) caps =
     map_option (\<lambda>s'. caps @ [take (length t - length s') t]) (lazy_stop s)"
proof (induction s)
  case Nil
  show ?case by (simp add: end_ok_def)
next
  case (Cons x xs)
  show ?case
    using Cons.IH by (simp add: re_run_tail del: re_run.simps(10))
qed

lemma re_run_greedy:
  "re_run (Star Greedy (NotCh c) # GClose # Ch (Lit c) # k) s (s0 # opens) caps =
     (case dropWhile (\<lambda>x. x \<noteq> c) s of
        [] \<Rightarrow> None
      | _ # t \<Rightarrow> re_run k t opens
           (caps @ [take (length s0 - length (dropWhile (\<lambda>x. x \<noteq> c) s)) s0]))"
proof (induction s)
  case Nil
  show ?case by simp
next
  case (Cons x xs)
  show ?case
  proof (cases "x = c")
    case True
    then show ?thesis by simp
  next
    case False
    have fallback: "re_run (GClose # Ch (Lit c) # k) (x # xs) (s0 # opens) caps = None"
      using False by simp
    have "re_run (Star Greedy (NotCh c) # GClose # Ch (Lit c) # k) (x # xs) (s0 # opens) caps =
          re_run (Star Greedy (NotCh c) # GClose # Ch (Lit c) # k) xs (s0 # opens) caps"
      using False fallback by (simp split: option.splits)
    also have "\<dots> = (case dropWhile (\<lambda>x. x \<noteq> c) xs of
        [] \<Rightarrow> None
      | _ # t \<Rightarrow> re_run k t opens
           (caps @ [take (length s0 - length (dropWhile (\<lambda>x. x \<noteq> c) xs)) s0]))"
      by (rule Cons.IH)
    also have "dropWhile (\<lambda>x. x \<noteq> c) xs = dropWhile (\<lambda>x. x \<noteq> c) (x # xs)"
      using False by simp
    finally show ?thesis .
  qed
qed

lemma re_run_owner_repo:
  "re_run owner_repo_pattern rest [] [] =
     (if takeWhile (\<lambda>x. x \<noteq> CHR ''/'') rest = [] then None
      else case dropWhile (\<lambda>x. x \<noteq> CHR ''/'') rest of
             [] \<Rightarrow> None
           | _ # t \<Rightarrow>
               (case t of
                  [] \<Rightarrow> None
                | y # ys \<Rightarrow>
                    if y = newline then None
                    else map_option
                           (\<lambda>s'. [takeWhile (\<lambda>x. x \<noteq> CHR ''/'') rest,
                                  take (length t - length s') t])
                           (lazy_stop ys)))"
proof (cases rest)
  case Nil
  then show ?thesis by (simp add: owner_repo_pattern_def)
next
  case (Cons x xs)
  show ?thesis
  proof (cases "x = CHR ''/''")
    case True
    with Cons show ?thesis by (simp add: owner_repo_pattern_def)
  next
    case False
    have len: "length rest - length (dropWhile (\<lambda>x. x \<noteq> CHR ''/'') xs) =
               length (takeWhile (\<lambda>x. x \<noteq> CHR ''/'') rest)"
      using Cons False
      by (simp add: length_dropWhile_le Suc_diff_le)
         (metis add_diff_cancel_right' length_append takeWhile_dropWhile_id)
    have tk: "take (length (takeWhile (\<lambda>x. x \<noteq> CHR ''/'') rest)) rest =
              takeWhile (\<lambda>x. x \<noteq> CHR ''/'') rest"
      by (metis append_eq_conv_conj takeWhile_dropWhile_id)
    have "re_run owner_repo_pattern rest [] [] =
          re_run (Star Greedy (NotCh CHR ''/'') # GClose # Ch (Lit CHR ''/'') #
                  [GOpen, Plus Lazy Dot, GClose, OptLit ''.git'', Eol]) xs [rest] []"
      using Cons False by (simp add: owner_repo_pattern_def)
    also have "\<dots> = (case dropWhile (\<lambda>x. x \<noteq> CHR ''/'') xs of
        [] \<Rightarrow> None
      | _ # t \<Rightarrow> re_run [GOpen, Plus Lazy Dot, GClose, OptLit ''.git'', Eol] t []
           ([] @ [take (length rest - length (dropWhile (\<lambda>x. x \<noteq> CHR ''/'') xs)) rest]))"
      by (rule re_run_greedy)
    also have "\<dots> = (case dropWhile (\<lambda>x. x \<noteq> CHR ''/'') xs of
        [] \<Rightarrow> None
      | _ # t \<Rightarrow> re_run [GOpen, Plus Lazy Dot, GClose, OptLit ''.git'', Eol] t []
           [takeWhile (\<lambda>x. x \<noteq> CHR ''/'') rest])"
      unfolding len tk append_Nil ..
    finally have step: "re_run owner_repo_pattern rest [] [] =
       (case dropWhile (\<lambda>x. x \<noteq> CHR ''/'') xs of
        [] \<Rightarrow> None
      | _ # t \<Rightarrow> re_run [GOpen, Plus Lazy Dot, GClose, OptLit ''.git'', Eol] t []
           [takeWhile (\<lambda>x. x \<noteq> CHR ''/'') rest])" .
    have second: "re_run [GOpen, Plus Lazy Dot, GClose, OptLit ''.git'', Eol] t [] cs =
       (case t of [] \<Rightarrow> None
        | y # ys \<Rightarrow> if y = newline then None
            else map_option (\<lambda>s'. cs @ [take (length t - length s') t]) (lazy_stop ys))"
      for t cs
    proof (cases t)
      case Nil
      then show ?thesis by simp
    next
      case (Cons y ys)
      have "re_run [GOpen, Plus Lazy Dot, GClose, OptLit ''.git'', Eol] (y # ys) [] cs =
            (if y = newline then None
             else re_run (Star Lazy Dot # GClose # [OptLit ''.git'', Eol]) ys [y # ys] cs)"
        by simp
      then show ?thesis using Cons by (simp only: re_run_lazy list.case)
    qed
    have dw: "dropWhile (\<lambda>x. x \<noteq> CHR ''/'') rest = dropWhile (\<lambda>x. x \<noteq> CHR ''/'') xs"
      using Cons False by simp
    have tw: "takeWhile (\<lambda>x. x \<noteq> CHR ''/'') rest \<noteq> []"
      using Cons False by simp
    show ?thesis
      unfolding step dw [symmetric] second append.simps using tw
      by (simp only: if_False)
  qed
qed

lemma lazy_stop_git:
  "newline \<notin> set n \<Longrightarrow> lazy_stop (n @ ''.git'') = Some ''.git''"
proof (induction n)
  case Nil
  show ?case by (simp add: end_ok_def)
next
  case (Cons y ys)
  have "\<not> end_ok ((y # ys) @ ''.git'')"
    using Cons.prems by (auto simp: end_ok_def newline_def)
  then show ?case using Cons by auto
qed

lemma lazy_stop_plain:
  "newline \<notin> set n \<Longrightarrow> \<not> suffix ''.git'' n \<Longrightarrow> lazy_stop n = Some []"
proof (induction n)
  case Nil
  show ?case by simp
next
  case (Cons y ys)
  have ne: "\<not> end_ok (y # ys)"
    using Cons.prems by (auto simp: end_ok_def)
  have "\<not> suffix ''.git'' ys"
    using Cons.prems(2) by (auto simp: suffix_Cons)
  then show ?case using Cons ne by auto
qed

lemma re_match_prefixed:
  "re_match (lits pre @ owner_repo_pattern) url =
     (if prefix pre url then re_run owner_repo_pattern (drop (length pre) url) [] [] else None)"
  by (simp add: re_match_def re_run_lits)

lemma owner_repo_split:
  assumes "ow \<noteq> []" "CHR ''/'' \<notin> set ow"
  shows "re_run owner_repo_pattern (ow @ CHR ''/'' # t) [] [] =
     (case t of
        [] \<Rightarrow> None
      | y # ys \<Rightarrow>
          if y = newline then None
          else map_option (\<lambda>s'. [ow, take (length t - length s') t]) (lazy_stop ys))"
proof -
  have tw: "takeWhile (\<lambda>x. x \<noteq> CHR ''/'') (ow @ CHR ''/'' # t) = ow"
    using assms(2) by (induction ow) auto
  have dw: "dropWhile (\<lambda>x. x \<noteq> CHR ''/'') (ow @ CHR ''/'' # t) = CHR ''/'' # t"
    using assms(2) by (induction ow) auto
  show ?thesis
    unfolding re_run_owner_repo tw dw using assms(1) by (simp only: if_False list.case)
qed

lemma ssh_not_https: "\<not> prefix ssh_prefix (https_prefix @ s)"
  by (simp add: ssh_prefix_def https_prefix_def)

lemma try_both:
  "try_patterns [ssh_pattern, https_pattern] url =
     (case re_match ssh_pattern url of
        Some [ow, rp] \<Rightarrow> Some \<lparr>owner = ow, repo = rp, full_name = ow @ ''/'' @ rp\<rparr>
      | Some _ \<Rightarrow> None
      | None \<Rightarrow>
         (case re_match https_pattern url of
            Some [ow, rp] \<Rightarrow> Some \<lparr>owner = ow, repo = rp, full_name = ow @ ''/'' @ rp\<rparr>
          | Some _ \<Rightarrow> None
          | None \<Rightarrow> None))"
  by (simp split: option.splits list.splits)

lemma parse_prefixed:
  assumes pre: "pre = ssh_prefix \<or> pre = https_prefix"
    and m: "re_run owner_repo_pattern rest [] [] = Some [ow, rp]"
  shows "parse_github_url (pre @ rest) =
           Some \<lparr>owner = ow, repo = rp, full_name = ow @ ''/'' @ rp\<rparr>"
proof -
  have ne: "pre @ rest \<noteq> []"
    using pre by (auto simp: ssh_prefix_def https_prefix_def)
  from pre show ?thesis
  proof
    assume p: "pre = ssh_prefix"
    have "re_match ssh_pattern (pre @ rest) = Some [ow, rp]"
      unfolding ssh_pattern_def re_match_prefixed using p m by simp
    then show ?thesis using ne by (simp add: parse_github_url_def)
  next
    assume p: "pre = https_prefix"
    have a: "re_match ssh_pattern (pre @ rest) = None"
      unfolding ssh_pattern_def re_match_prefixed using p ssh_not_https by simp
    have b: "re_match https_pattern (pre @ rest) = Some [ow, rp]"
      unfolding https_pattern_def re_match_prefixed using p m by simp
    show ?thesis using ne a b by (simp add: parse_github_url_def)
  qed
qed

lemma parse_strips_git:
  assumes "pre = ssh_prefix \<or> pre = https_prefix"
    and "ow \<noteq> []" "CHR ''/'' \<notin> set ow" "nm \<noteq> []" "newline \<notin> set nm"
  shows "parse_github_url (pre @ ow @ ''/'' @ nm @ ''.git'') =
           Some \<lparr>owner = ow, repo = nm, full_name = ow @ ''/'' @ nm\<rparr>"
proof -
  obtain y ys where nm: "nm = y # ys" using assms(4) by (cases nm) auto
  have st: "lazy_stop (ys @ ''.git'') = Some ''.git''"
    using assms(5) nm by (intro lazy_stop_git) simp
  have "re_run owner_repo_pattern (ow @ CHR ''/'' # (nm @ ''.git'')) [] [] = Some [ow, nm]"
    unfolding owner_repo_split [OF assms(2,3)] using nm assms(5) st by auto
  then show ?thesis
    using parse_prefixed [OF assms(1)] by simp
qed

lemma parse_without_git:
  assumes "pre = ssh_prefix \<or> pre = https_prefix"
    and "ow \<noteq> []" "CHR ''/'' \<notin> set ow" "nm \<noteq> []" "newline \<notin> set nm"
    and "\<not> suffix ''.git'' nm"
  shows "parse_github_url (pre @ ow @ ''/'' @ nm) =
           Some \<lparr>owner = ow, repo = nm, full_name = ow @ ''/'' @ nm\<rparr>"
proof -
  obtain y ys where nm: "nm = y # ys" using assms(4) by (cases nm) auto
  have "\<not> suffix ''.git'' ys"
    using assms(6) nm by (auto simp: suffix_Cons)
  then have st: "lazy_stop ys = Some []"
    using assms(5) nm by (intro lazy_stop_plain) simp_all
  have "re_run owner_repo_pattern (ow @ CHR ''/'' # nm) [] [] = Some [ow, nm]"
    unfolding owner_repo_split [OF assms(2,3)] using nm assms(5) st by auto
  then show ?thesis
    using parse_prefixed [OF assms(1)] by simp
qed

lemma parse_Some_D:
  assumes "parse_github_url url = Some r"
  shows "\<exists>pre rest. (pre = ssh_prefix \<or> pre = https_prefix) \<and> url = pre @ rest \<and>
           re_run owner_repo_pattern rest [] [] = Some [owner r, repo r] \<and>
           full_name r = owner r @ ''/'' @ repo r"
proof (cases "re_match ssh_pattern url")
  case (Some gs)
  with assms obtain ow rp where gs: "gs = [ow, rp]"
    and r: "r = \<lparr>owner = ow, repo = rp, full_name = ow @ ''/'' @ rp\<rparr>"
    by (auto simp: parse_github_url_def split: if_splits list.splits)
  from Some have "prefix ssh_prefix url"
    and "re_run owner_repo_pattern (drop (length ssh_prefix) url) [] [] = Some gs"
    unfolding ssh_pattern_def re_match_prefixed by (auto split: if_splits)
  then show ?thesis using gs r by (auto simp: prefix_def)
next
  case None
  with assms obtain gs where h: "re_match https_pattern url = Some gs"
    by (auto simp: parse_github_url_def split: if_splits option.splits)
  with None assms obtain ow rp where gs: "gs = [ow, rp]"
    and r: "r = \<lparr>owner = ow, repo = rp, full_name = ow @ ''/'' @ rp\<rparr>"
    by (auto simp: parse_github_url_def split: if_splits list.splits)
  from h have "prefix https_prefix url"
    and "re_run owner_repo_pattern (drop (length https_prefix) url) [] [] = Some gs"
    unfolding https_pattern_def re_match_prefixed by (auto split: if_splits)
  then show ?thesis using gs r by (auto simp: prefix_def)
qed

lemma lazy_stop_D:
  "lazy_stop s = Some s' \<Longrightarrow> \<exists>u. s = u @ s' \<and> newline \<notin> set u"
proof (induction s)
  case Nil
  then show ?case by simp
next
  case (Cons x xs)
  show ?case
  proof (cases "end_ok (x # xs)")
    case True
    with Cons.prems have "x # xs = [] @ s'" by simp
    then show ?thesis by (metis empty_iff list.set(1))
  next
    case False
    with Cons.prems have x: "x \<noteq> newline" and "lazy_stop xs = Some s'"
      by (auto split: if_splits)
    with Cons.IH obtain u where "xs = u @ s'" "newline \<notin> set u" by blast
    with x have "x # xs = (x # u) @ s' \<and> newline \<notin> set (x # u)" by auto
    then show ?thesis by blast
  qed
qed

lemma owner_repo_groups:
  assumes "re_run owner_repo_pattern rest [] [] = Some [ow, rp]"
  shows "ow \<noteq> [] \<and> CHR ''/'' \<notin> set ow \<and> rp \<noteq> [] \<and> newline \<notin> set rp"
proof -
  let ?tw = "takeWhile (\<lambda>x. x \<noteq> CHR ''/'') rest"
  from assms have ne: "?tw \<noteq> []"
    unfolding re_run_owner_repo by (auto split: if_splits)
  from assms obtain z y ys s' where y: "y \<noteq> newline" and st: "lazy_stop ys = Some s'"
    and gs: "[ow, rp] = [?tw, take (length (y # ys) - length s') (y # ys)]"
    unfolding re_run_owner_repo by (auto split: if_splits list.splits)
  from lazy_stop_D [OF st] obtain u where u: "ys = u @ s'" "newline \<notin> set u" by blast
  have rp: "rp = y # u" using gs u by simp
  have ow: "ow = ?tw" using gs by simp
  have "CHR ''/'' \<notin> set ?tw" using set_takeWhileD by fastforce
  with ne ow rp y u show ?thesis by auto
qed

lemma parse_None_no_prefix:
  assumes "\<not> prefix ssh_prefix url" "\<not> prefix https_prefix url"
  shows "parse_github_url url = None"
  using assms
  by (simp add: parse_github_url_def ssh_pattern_def https_pattern_def re_match_prefixed)

subsection \<open>Claim C1\<close>

text \<open>
  Claim C1. Parsing \<^verbatim>\<open>git@github.com:acme/widget.git\<close> and parsing
  \<^verbatim>\<open>https://github.com/acme/widget\<close> both yield owner \<open>acme\<close> and name \<open>widget\<close>;
  parsing \<^verbatim>\<open>https://gitlab.com/acme/widget.git\<close> yields none. In general, after
  either prefix, an owner without a slash and a name without a line feed, a trailing
  \<^verbatim>\<open>.git\<close> is stripped, and the name is kept whole when it carries no such suffix;
  a URL that matches neither pattern, in particular one that starts with neither
  prefix, yields none.
\<close>

theorem parse_github_url_suffix:
  "parse_github_url ''git@github.com:acme/widget.git'' =
     Some \<lparr>owner = ''acme'', repo = ''widget'', full_name = ''acme/widget''\<rparr>
   \<and> parse_github_url ''https://github.com/acme/widget'' =
     Some \<lparr>owner = ''acme'', repo = ''widget'', full_name = ''acme/widget''\<rparr>
   \<and> parse_github_url ''https://gitlab.com/acme/widget.git'' = None
   \<and> (\<forall>pre ow nm.
        (pre = ssh_prefix \<or> pre = https_prefix) \<and> ow \<noteq> [] \<and> CHR ''/'' \<notin> set ow \<and>
        nm \<noteq> [] \<and> newline \<notin> set nm \<longrightarrow>
        parse_github_url (pre @ ow @ ''/'' @ nm @ ''.git'') =
          Some \<lparr>owner = ow, repo = nm, full_name = ow @ ''/'' @ nm\<rparr>
        \<and> (\<not> suffix ''.git'' nm \<longrightarrow>
             parse_github_url (pre @ ow @ ''/'' @ nm) =
               Some \<lparr>owner = ow, repo = nm, full_name = ow @ ''/'' @ nm\<rparr>))
   \<and> (\<forall>u. re_match ssh_pattern u = None \<and> re_match https_pattern u = None \<longrightarrow>
            parse_github_url u = None)
   \<and> (\<forall>u. \<not> prefix ssh_prefix u \<and> \<not> prefix https_prefix u \<longrightarrow>
            parse_github_url u = None)"
proof -
  have e1: "parse_github_url ''git@github.com:acme/widget.git'' =
     Some \<lparr>owner = ''acme'', repo = ''widget'', full_name = ''acme/widget''\<rparr>"
    by code_simp
  have e2: "parse_github_url ''https://github.com/acme/widget'' =
     Some \<lparr>owner = ''acme'', repo = ''widget'', full_name = ''acme/widget''\<rparr>"
    by code_simp
  have e3: "parse_github_url ''https://gitlab.com/acme/widget.git'' = None"
    by code_simp
  have g: "parse_github_url u = None"
    if "re_match ssh_pattern u = None \<and> re_match https_pattern u = None" for u
    using that by (simp add: parse_github_url_def)
  have s: "parse_github_url (pre @ ow @ ''/'' @ nm @ ''.git'') =
          Some \<lparr>owner = ow, repo = nm, full_name = ow @ ''/'' @ nm\<rparr>
        \<and> (\<not> suffix ''.git'' nm \<longrightarrow>
             parse_github_url (pre @ ow @ ''/'' @ nm) =
               Some \<lparr>owner = ow, repo = nm, full_name = ow @ ''/'' @ nm\<rparr>)"
    if "(pre = ssh_prefix \<or> pre = https_prefix) \<and> ow \<noteq> [] \<and> CHR ''/'' \<notin> set ow \<and>
        nm \<noteq> [] \<and> newline \<notin> set nm" for pre ow nm
  proof (intro conjI impI)
    show "parse_github_url (pre @ ow @ ''/'' @ nm @ ''.git'') =
          Some \<lparr>owner = ow, repo = nm, full_name = ow @ ''/'' @ nm\<rparr>"
      using that by (intro parse_strips_git) simp_all
    assume "\<not> suffix ''.git'' nm"
    then show "parse_github_url (pre @ ow @ ''/'' @ nm) =
               Some \<lparr>owner = ow, repo = nm, full_name = ow @ ''/'' @ nm\<rparr>"
      using that by (intro parse_without_git) simp_all
  qed
  have n: "parse_github_url u = None"
    if "\<not> prefix ssh_prefix u \<and> \<not> prefix https_prefix u" for u
    using that by (intro parse_None_no_prefix) simp_all
  show ?thesis
    apply (intro conjI allI impI)
    apply (rule e1)
    apply (rule e2)
    apply (rule e3)
    apply (rule s [THEN conjunct1], assumption)
    apply (rule s [THEN conjunct2, rule_format], assumption, assumption) 
    apply (rule g, assumption)
    apply (rule n, assumption)
    done
qed

text \<open>The general part of C1 at a concrete repository and at a local path.\<close>

theorem parse_github_url_suffix_witness:
  "(https_prefix = ssh_prefix \<or> https_prefix = https_prefix) \<and> ''torvalds'' \<noteq> [] \<and>
   CHR ''/'' \<notin> set ''torvalds'' \<and> ''linux'' \<noteq> [] \<and> newline \<notin> set ''linux'' \<and>
   \<not> suffix ''.git'' ''linux'' \<and>
   parse_github_url ''https://github.com/torvalds/linux.git'' =
     Some \<lparr>owner = ''torvalds'', repo = ''linux'', full_name = ''torvalds/linux''\<rparr> \<and>
   parse_github_url ''https://github.com/torvalds/linux'' =
     Some \<lparr>owner = ''torvalds'', repo = ''linux'', full_name = ''torvalds/linux''\<rparr> \<and>
   \<not> prefix ssh_prefix ''/srv/git/linux.git'' \<and> \<not> prefix https_prefix ''/srv/git/linux.git'' \<and>
   parse_github_url ''/srv/git/linux.git'' = None"
proof -
  have h: "(https_prefix = ssh_prefix \<or> https_prefix = https_prefix) \<and> ''torvalds'' \<noteq> [] \<and>
   CHR ''/'' \<notin> set ''torvalds'' \<and> ''linux'' \<noteq> [] \<and> newline \<notin> set ''linux''"
    by (simp add: newline_def)
  have s: "\<not> suffix ''.git'' ''linux''"
    by (simp add: suffix_def append_eq_Cons_conv)
  have n: "\<not> prefix ssh_prefix ''/srv/git/linux.git'' \<and> \<not> prefix https_prefix ''/srv/git/linux.git''"
    by (simp add: ssh_prefix_def https_prefix_def)
  note t = parse_github_url_suffix
  note t4 = t [THEN conjunct2, THEN conjunct2, THEN conjunct2, THEN conjunct1, rule_format, OF h]
  note t6 = t [THEN conjunct2, THEN conjunct2, THEN conjunct2, THEN conjunct2, THEN conjunct2, rule_format, OF n]
  from t4 [THEN conjunct1] t4 [THEN conjunct2, rule_format, OF s] t6
  have "parse_github_url (https_prefix @ ''torvalds'' @ ''/'' @ ''linux'' @ ''.git'') =
          Some \<lparr>owner = ''torvalds'', repo = ''linux'', full_name = ''torvalds'' @ ''/'' @ ''linux''\<rparr>"
    and "parse_github_url (https_prefix @ ''torvalds'' @ ''/'' @ ''linux'') =
          Some \<lparr>owner = ''torvalds'', repo = ''linux'', full_name = ''torvalds'' @ ''/'' @ ''linux''\<rparr>"
    and "parse_github_url ''/srv/git/linux.git'' = None"
    by - assumption+
  with h s n show ?thesis by (simp add: https_prefix_def)
qed

subsection \<open>Claim C9\<close>

text \<open>
  Claim C9. The parser accepts URLs with more than two path segments: parsing
  \<^verbatim>\<open>https://github.com/a/b/c\<close> yields owner \<open>a\<close> and repository \<open>b/c\<close>, and so
  does the SSH form; whatever follows the owner is taken whole, slashes included.
  Only the owner is kept free of slashes: no result has one in its owner.
\<close>

theorem parse_github_url_extra_segments:
  "parse_github_url ''https://github.com/a/b/c'' =
     Some \<lparr>owner = ''a'', repo = ''b/c'', full_name = ''a/b/c''\<rparr>
   \<and> parse_github_url ''git@github.com:a/b/c.git'' =
     Some \<lparr>owner = ''a'', repo = ''b/c'', full_name = ''a/b/c''\<rparr>
   \<and> (\<forall>pre ow s1 s2.
        (pre = ssh_prefix \<or> pre = https_prefix) \<and> ow \<noteq> [] \<and> CHR ''/'' \<notin> set ow \<and>
        newline \<notin> set (s1 @ ''/'' @ s2) \<and> \<not> suffix ''.git'' (s1 @ ''/'' @ s2) \<longrightarrow>
        parse_github_url (pre @ ow @ ''/'' @ s1 @ ''/'' @ s2) =
          Some \<lparr>owner = ow, repo = s1 @ ''/'' @ s2, full_name = ow @ ''/'' @ s1 @ ''/'' @ s2\<rparr>)
   \<and> (\<forall>u r. parse_github_url u = Some r \<longrightarrow> CHR ''/'' \<notin> set (owner r))"
proof -
  have e1: "parse_github_url ''https://github.com/a/b/c'' =
     Some \<lparr>owner = ''a'', repo = ''b/c'', full_name = ''a/b/c''\<rparr>"
    by code_simp
  have e2: "parse_github_url ''git@github.com:a/b/c.git'' =
     Some \<lparr>owner = ''a'', repo = ''b/c'', full_name = ''a/b/c''\<rparr>"
    by code_simp
  have g: "parse_github_url (pre @ ow @ ''/'' @ s1 @ ''/'' @ s2) =
          Some \<lparr>owner = ow, repo = s1 @ ''/'' @ s2, full_name = ow @ ''/'' @ s1 @ ''/'' @ s2\<rparr>"
    if h: "(pre = ssh_prefix \<or> pre = https_prefix) \<and> ow \<noteq> [] \<and> CHR ''/'' \<notin> set ow \<and>
        newline \<notin> set (s1 @ ''/'' @ s2) \<and> \<not> suffix ''.git'' (s1 @ ''/'' @ s2)"
    for pre ow s1 s2
  proof -
    have "s1 @ ''/'' @ s2 \<noteq> []" by simp
    with h have "parse_github_url (pre @ ow @ ''/'' @ (s1 @ ''/'' @ s2)) =
      Some \<lparr>owner = ow, repo = s1 @ ''/'' @ s2, full_name = ow @ ''/'' @ (s1 @ ''/'' @ s2)\<rparr>"
      by (intro parse_without_git) (simp_all only: simp_thms)
    then show ?thesis by (simp only: append_assoc)
  qed
  have o: "CHR ''/'' \<notin> set (owner r)" if "parse_github_url u = Some r" for u r
  proof -
    from parse_Some_D [OF that] obtain rest
      where "re_run owner_repo_pattern rest [] [] = Some [owner r, repo r]" by blast
    from owner_repo_groups [OF this] show ?thesis by simp
  qed
  show ?thesis
    apply (intro conjI allI impI)
    apply (rule e1)
    apply (rule e2)
    apply (rule g, assumption)
    apply (rule o, assumption)
    done
qed

text \<open>C9 at an SSH URL with three segments.\<close>

theorem parse_github_url_extra_segments_witness:
  "(ssh_prefix = ssh_prefix \<or> ssh_prefix = https_prefix) \<and> ''org'' \<noteq> [] \<and>
   CHR ''/'' \<notin> set ''org'' \<and> newline \<notin> set (''team'' @ ''/'' @ ''tool'') \<and>
   \<not> suffix ''.git'' (''team'' @ ''/'' @ ''tool'') \<and>
   parse_github_url ''git@github.com:org/team/tool'' =
     Some \<lparr>owner = ''org'', repo = ''team/tool'', full_name = ''org/team/tool''\<rparr> \<and>
   CHR ''/'' \<notin> set ''org''"
proof -
  have h: "(ssh_prefix = ssh_prefix \<or> ssh_prefix = https_prefix) \<and> ''org'' \<noteq> [] \<and>
   CHR ''/'' \<notin> set ''org'' \<and> newline \<notin> set (''team'' @ ''/'' @ ''tool'') \<and>
   \<not> suffix ''.git'' (''team'' @ ''/'' @ ''tool'')"
    by (simp add: newline_def suffix_def append_eq_Cons_conv)
  note t = parse_github_url_extra_segments
  note t3 = t [THEN conjunct2, THEN conjunct2, THEN conjunct1, rule_format, OF h]
  note t4 = t [THEN conjunct2, THEN conjunct2, THEN conjunct2, rule_format]
  from t3 have p: "parse_github_url ''git@github.com:org/team/tool'' =
     Some \<lparr>owner = ''org'', repo = ''team/tool'', full_name = ''org/team/tool''\<rparr>"
    by (simp add: ssh_prefix_def)
  from t4 [OF p] have "CHR ''/'' \<notin> set ''org''" by simp
  with h p show ?thesis by simp
qed

section \<open>The scanner\<close>

subsection \<open>Claim C8\<close>

lemma lookup_append:
  "lookup fs (p @ q) = (case lookup fs p of None \<Rightarrow> None | Some n \<Rightarrow> lookup n q)"
  by (induction fs p rule: lookup.induct) (simp_all split: option.splits)

lemma is_git_repository_entry:
  "is_git_repository fs p \<longleftrightarrow>
     (\<exists>es. lookup fs p = Some (Dir es) \<and> ''.git'' \<in> fst ` set es)"
proof -
  have "is_git_repository fs p \<longleftrightarrow>
          (\<exists>n. lookup fs p = Some n \<and> lookup n [''.git''] \<noteq> None)"
    by (auto simp: is_git_repository_def path_exists_def lookup_append split: option.splits)
  also have "\<dots> \<longleftrightarrow> (\<exists>es. lookup fs p = Some (Dir es) \<and> map_of es ''.git'' \<noteq> None)"
  proof
    assume "\<exists>n. lookup fs p = Some n \<and> lookup n [''.git''] \<noteq> None"
    then obtain n where n: "lookup fs p = Some n" "lookup n [''.git''] \<noteq> None" by blast
    then show "\<exists>es. lookup fs p = Some (Dir es) \<and> map_of es ''.git'' \<noteq> None"
      by (cases n) (auto split: option.splits)
  next
    assume "\<exists>es. lookup fs p = Some (Dir es) \<and> map_of es ''.git'' \<noteq> None"
    then show "\<exists>n. lookup fs p = Some n \<and> lookup n [''.git''] \<noteq> None"
      by (auto split: option.splits)
  qed
  also have "\<dots> \<longleftrightarrow> (\<exists>es. lookup fs p = Some (Dir es) \<and> ''.git'' \<in> fst ` set es)"
    by (simp add: map_of_eq_None_iff)
  finally show ?thesis .
qed

text \<open>
  Claim C8, as stated: \<open>is_git_repository\<close> is true if and only if a metadata
  \<^emph>\<open>directory\<close> \<^verbatim>\<open>.git\<close> exists directly under the path. It fails where
  \<^verbatim>\<open>.git\<close> is a regular file: \<open>Path.exists()\<close> is true there, and no such
  directory exists.
\<close>

theorem is_git_repository_file_counterexample:
  "is_git_repository worktree_fs [''proj''] \<and> \<not> is_dir worktree_fs [''proj'', ''.git'']"
  by (simp add: is_git_repository_def path_exists_def is_dir_def worktree_fs_def)

text \<open>
  Claim C8, amended: \<open>is_git_repository\<close> is true if and only if the path is a
  directory with an entry named \<^verbatim>\<open>.git\<close>, of either kind: a directory or a regular
  file. It is a function of the file system and the path, and changes nothing.
\<close>

theorem is_git_repository_iff_entry:
  "is_git_repository fs p \<longleftrightarrow>
     (\<exists>es. lookup fs p = Some (Dir es) \<and> ''.git'' \<in> fst ` set es)
   \<and> (is_dir fs (p @ [''.git'']) \<or> is_file fs (p @ [''.git'']))"
proof -
  have "is_git_repository fs p \<longleftrightarrow> is_dir fs (p @ [''.git'']) \<or> is_file fs (p @ [''.git''])"
  proof (cases "lookup fs (p @ [''.git''])")
    case None
    then show ?thesis by (simp add: is_git_repository_def path_exists_def is_dir_def is_file_def)
  next
    case (Some n)
    then show ?thesis
      by (cases n) (simp_all add: is_git_repository_def path_exists_def is_dir_def is_file_def)
  qed
  with is_git_repository_entry [of fs p] show ?thesis by blast
qed

subsection \<open>The walk\<close>

lemma prefix_same_length:
  "prefix a q \<Longrightarrow> prefix b q \<Longrightarrow> length a = length b \<Longrightarrow> a = b"
  by (auto simp: prefix_def)

lemma walk_prefix:
  "q \<in> set (walk fs root n) \<Longrightarrow> prefix root q"
  "q \<in> set (walk_dirs fs root es) \<Longrightarrow> \<exists>d \<in> fst ` set es. prefix (root @ [d]) q"
proof (induction fs root n and fs root es arbitrary: q and q rule: walk_walk_dirs.induct)
  case (1 fs root)
  then show ?case by simp
next
  case (2 fs root es)
  then show ?case
    by (auto split: if_splits dest: append_prefixD)
next
  case (3 fs root)
  then show ?case by simp
next
  case (4 fs root e es)
  then show ?case by (auto split: if_splits)
qed

lemma walk_dirs_prefix_longer:
  "q \<in> set (walk_dirs fs root es) \<Longrightarrow> q \<noteq> root"
  by (auto dest!: walk_prefix(2) simp: prefix_def)

lemma walk_leaf:
  "wf_node n \<Longrightarrow> p \<in> set (walk fs root n) \<Longrightarrow> q \<in> set (walk fs root n) \<Longrightarrow>
     is_git_repository fs p \<Longrightarrow> prefix p q \<Longrightarrow> q = p"
  "wf_entries es \<Longrightarrow> distinct (map fst es) \<Longrightarrow>
     p \<in> set (walk_dirs fs root es) \<Longrightarrow> q \<in> set (walk_dirs fs root es) \<Longrightarrow>
     is_git_repository fs p \<Longrightarrow> prefix p q \<Longrightarrow> q = p"
proof (induction fs root n and fs root es arbitrary: p q and p q rule: walk_walk_dirs.induct)
  case (1 fs root)
  then show ?case by simp
next
  case (2 fs root es)
  show ?case
  proof (cases "is_git_repository fs root")
    case True
    with "2.prems" show ?thesis by simp
  next
    case False
    from "2.prems"(1) have wf: "wf_entries es" "distinct (map fst es)" by simp_all
    from False "2.prems" have p: "p = root \<or> p \<in> set (walk_dirs fs root es)"
      and q: "q = root \<or> q \<in> set (walk_dirs fs root es)" by simp_all
    from False "2.prems"(4) have "p \<noteq> root" by auto
    with p have pd: "p \<in> set (walk_dirs fs root es)" by simp
    from walk_prefix(2) [OF pd] obtain d where "prefix (root @ [d]) p" by blast
    with "2.prems"(5) have "prefix (root @ [d]) q" by (meson prefix_order.trans)
    then have "q \<noteq> root" by (auto simp: prefix_def)
    with q have qd: "q \<in> set (walk_dirs fs root es)" by simp
    from "2.IH" [OF False wf pd qd "2.prems"(4,5)] show ?thesis .
  qed
next
  case (3 fs root)
  then show ?case by simp
next
  case (4 fs root e es)
  let ?A = "if is_dir_node (snd e) \<and> keep_dir (fst e)
            then walk fs (root @ [fst e]) (snd e) else []"
  let ?B = "walk_dirs fs root es"
  from "4.prems"(1,2) have wfe: "wf_node (snd e)" and wfs: "wf_entries es"
    and ds: "distinct (map fst es)" and fresh: "fst e \<notin> fst ` set es" by auto
  have inA: "prefix (root @ [fst e]) x" if "x \<in> set ?A" for x
    using that walk_prefix(1) by (auto split: if_splits)
  have inB: "\<exists>d \<in> fst ` set es. prefix (root @ [d]) x" if "x \<in> set ?B" for x
    using that walk_prefix(2) by blast
  have apart: False if a: "prefix (root @ [fst e]) x" and b: "prefix (root @ [d]) x"
    and d: "d \<in> fst ` set es" for x d
  proof -
    from prefix_same_length [OF a b] have "root @ [fst e] = root @ [d]" by simp
    with d fresh show False by simp
  qed
  from "4.prems"(3,4) have pm: "p \<in> set ?A \<or> p \<in> set ?B" and qm: "q \<in> set ?A \<or> q \<in> set ?B"
    by auto
  show ?case
  proof (cases "p \<in> set ?A")
    case pA: True
    then have c: "is_dir_node (snd e) \<and> keep_dir (fst e)" by (auto split: if_splits)
    have "prefix (root @ [fst e]) q" using inA [OF pA] "4.prems"(6) by (meson prefix_order.trans)
    then have "q \<notin> set ?B" using inB apart by blast
    with qm have qA: "q \<in> set ?A" by blast
    from pA qA c have "p \<in> set (walk fs (root @ [fst e]) (snd e))"
      "q \<in> set (walk fs (root @ [fst e]) (snd e))" by simp_all
    from "4.IH"(1) [OF c wfe this "4.prems"(5,6)] show ?thesis .
  next
    case False
    with pm have pB: "p \<in> set ?B" by blast
    from inB [OF pB] obtain d where d: "d \<in> fst ` set es" "prefix (root @ [d]) p" by blast
    then have "prefix (root @ [d]) q" using "4.prems"(6) by (meson prefix_order.trans)
    then have "q \<notin> set ?A" using inA apart d(1) by blast
    with qm have qB: "q \<in> set ?B" by blast
    from "4.IH"(2) [OF wfs ds pB qB "4.prems"(5,6)] show ?thesis .
  qed
qed

lemma walk_distinct:
  "wf_node n \<Longrightarrow> distinct (walk fs root n)"
  "wf_entries es \<Longrightarrow> distinct (map fst es) \<Longrightarrow> distinct (walk_dirs fs root es)"
proof (induction fs root n and fs root es rule: walk_walk_dirs.induct)
  case (1 fs root)
  then show ?case by simp
next
  case (2 fs root es)
  then show ?case using walk_dirs_prefix_longer by auto
next
  case (3 fs root)
  then show ?case by simp
next
  case (4 fs root e es)
  from "4.prems" have wfe: "wf_node (snd e)" and wfs: "wf_entries es"
    and ds: "distinct (map fst es)" and fresh: "fst e \<notin> fst ` set es" by auto
  have disj: False if a: "x \<in> set (walk fs (root @ [fst e]) (snd e))"
    and b: "x \<in> set (walk_dirs fs root es)" for x
  proof -
    from walk_prefix(2) [OF b] obtain d where d: "d \<in> fst ` set es" "prefix (root @ [d]) x"
      by blast
    from prefix_same_length [OF walk_prefix(1) [OF a] d(2)] have "fst e = d" by simp
    with d(1) fresh show False by simp
  qed
  show ?case
    using "4.IH"(1) [OF _ wfe] "4.IH"(2) [OF wfs ds] disj by auto
qed

lemma update_member:
  "(k, r) \<in> set (AList.update k' v al) \<Longrightarrow> (k, r) \<in> set al \<or> (k, r) = (k', v)"
  by (induction al) (auto split: if_splits)

lemma scan_step_paths:
  assumes "(k, r) \<in> set (local_repos (scan_step fs git st root))"
  shows "(k, r) \<in> set (local_repos st) \<or> (local_path r = root \<and> is_git_repository fs root)"
  using assms
  by (auto simp: scan_step_def split: if_splits option.splits dest!: update_member)

lemma scan_fold_paths:
  "(k, r) \<in> set (local_repos (foldl (scan_step fs git) st roots)) \<Longrightarrow>
     (k, r) \<in> set (local_repos st) \<or>
     (local_path r \<in> set roots \<and> is_git_repository fs (local_path r))"
proof (induction roots arbitrary: st)
  case Nil
  then show ?case by simp
next
  case (Cons x xs)
  from Cons.prems have "(k, r) \<in> set (local_repos (foldl (scan_step fs git) (scan_step fs git st x) xs))"
    by simp
  from Cons.IH [OF this] show ?case
    using scan_step_paths [of k r fs git st x] by auto
qed

lemma scan_directory_paths:
  assumes "(k, r) \<in> set (fst (scan_directory fs git base \<lparr>local_repos = [], printed = []\<rparr>))"
  shows "local_path r \<in> set (scan_roots fs base) \<and> is_git_repository fs (local_path r)"
proof -
  from assms have "(k, r) \<in> set (local_repos (foldl (scan_step fs git)
      \<lparr>local_repos = [], printed = [MsgScanning base]\<rparr> (scan_roots fs base)))"
    by (simp add: scan_directory_def Let_def)
  from scan_fold_paths [OF this] show ?thesis by simp
qed

lemma wf_lookup: "wf_node fs \<Longrightarrow> lookup fs p = Some n \<Longrightarrow> wf_node n"
proof (induction fs p rule: lookup.induct)
  case (1 n)
  then show ?case by simp
next
  case (2 d p)
  then show ?case by simp
next
  case (3 es d p)
  from "3.prems"(2) obtain c where c: "map_of es d = Some c" "lookup c p = Some n"
    by (auto split: option.splits)
  have "wf_entries xs \<Longrightarrow> (d, c) \<in> set xs \<Longrightarrow> wf_node c" for xs
    by (induction xs) auto
  with "3.prems"(1) c(1) have "wf_node c" by (auto dest: map_of_SomeD)
  with "3.IH" c show ?case by simp
qed

lemma scan_roots_leaf:
  assumes "wf_node fs" "p \<in> set (scan_roots fs base)" "q \<in> set (scan_roots fs base)"
    "is_git_repository fs p" "prefix p q"
  shows "q = p"
proof (cases "lookup fs base")
  case None
  with assms(2) show ?thesis by (simp add: scan_roots_def)
next
  case (Some n)
  with assms(1) have "wf_node n" by (rule wf_lookup)
  from walk_leaf(1) [OF this] assms(2-5) Some show ?thesis by (simp add: scan_roots_def)
qed

lemma scan_roots_distinct:
  assumes "wf_node fs"
  shows "distinct (scan_roots fs base)"
proof (cases "lookup fs base")
  case None
  then show ?thesis by (simp add: scan_roots_def)
next
  case (Some n)
  with assms have "wf_node n" by (rule wf_lookup)
  from walk_distinct(1) [OF this] Some show ?thesis by (simp add: scan_roots_def)
qed

lemma nested_example:
  "scan_roots nested_fs [''a''] = [[''a''], [''a'', ''b'']]"
  "is_git_repository nested_fs [''a'', ''b'', ''vendor'', ''c'']"
  "map fst (fst (scan_directory nested_fs nested_git [''a'']
                   \<lparr>local_repos = [], printed = []\<rparr>)) = [''acme/widget'']"
  by code_simp+

subsection \<open>Claim C7\<close>

text \<open>
  Claim C7. In a well-formed tree the scan visits no directory twice, and once a
  visited directory is a repository root it visits nothing below it; every record of
  the result sits at a visited repository root, so no record lies inside another's
  directory. For the repository at \<^verbatim>\<open>/a/b\<close> with the nested repository at
  \<^verbatim>\<open>/a/b/vendor/c\<close> the scan visits \<^verbatim>\<open>/a\<close> and \<^verbatim>\<open>/a/b\<close> only, and the result
  holds the identity of \<^verbatim>\<open>/a/b\<close> alone.
\<close>

theorem scan_repositories_are_leaves:
  "(wf_node fs \<longrightarrow>
      distinct (scan_roots fs base)
      \<and> (\<forall>p q. p \<in> set (scan_roots fs base) \<and> q \<in> set (scan_roots fs base) \<and>
             is_git_repository fs p \<and> prefix p q \<longrightarrow> q = p)
      \<and> (\<forall>k r k' r'.
             (k, r) \<in> set (fst (scan_directory fs git base \<lparr>local_repos = [], printed = []\<rparr>)) \<and>
             (k', r') \<in> set (fst (scan_directory fs git base \<lparr>local_repos = [], printed = []\<rparr>)) \<and>
             prefix (local_path r) (local_path r') \<longrightarrow>
             local_path r' = local_path r))
   \<and> (\<forall>k r. (k, r) \<in> set (fst (scan_directory fs git base \<lparr>local_repos = [], printed = []\<rparr>)) \<longrightarrow>
          local_path r \<in> set (scan_roots fs base) \<and> is_git_repository fs (local_path r))
   \<and> scan_roots nested_fs [''a''] = [[''a''], [''a'', ''b'']]
   \<and> is_git_repository nested_fs [''a'', ''b'', ''vendor'', ''c'']
   \<and> map fst (fst (scan_directory nested_fs nested_git [''a'']
                     \<lparr>local_repos = [], printed = []\<rparr>)) = [''acme/widget'']"
proof -
  let ?res = "fst (scan_directory fs git base \<lparr>local_repos = [], printed = []\<rparr>)"
  have found: "local_path r \<in> set (scan_roots fs base) \<and> is_git_repository fs (local_path r)"
    if "(k, r) \<in> set ?res" for k r
    using that by (rule scan_directory_paths)
  have leaf: "q = p" if "wf_node fs"
    and "p \<in> set (scan_roots fs base) \<and> q \<in> set (scan_roots fs base) \<and>
         is_git_repository fs p \<and> prefix p q" for p q
    using that scan_roots_leaf [of fs p base q] by blast
  have apart: "local_path r' = local_path r" if wf: "wf_node fs"
    and h: "(k, r) \<in> set ?res \<and> (k', r') \<in> set ?res \<and> prefix (local_path r) (local_path r')"
    for k r k' r'
  proof -
    from h found [of k r] found [of k' r']
    have "local_path r \<in> set (scan_roots fs base) \<and> local_path r' \<in> set (scan_roots fs base) \<and>
          is_git_repository fs (local_path r) \<and> prefix (local_path r) (local_path r')"
      by blast
    from leaf [OF wf this] show ?thesis .
  qed
  show ?thesis
    apply (intro conjI allI impI)
    apply (erule scan_roots_distinct)
    apply (erule leaf, assumption)
    apply (erule apart, assumption)
    apply (erule found [THEN conjunct1])
    apply (erule found [THEN conjunct2])
    apply (rule nested_example(1))
    apply (rule nested_example(2))
    apply (rule nested_example(3))
    done
qed

text \<open>C7 at the nested example: the inner repository root is never visited.\<close>

theorem scan_repositories_are_leaves_witness:
  "wf_node nested_fs
   \<and> [''a'', ''b''] \<in> set (scan_roots nested_fs [''a''])
   \<and> is_git_repository nested_fs [''a'', ''b'']
   \<and> is_git_repository nested_fs [''a'', ''b'', ''vendor'', ''c'']
   \<and> prefix [''a'', ''b''] [''a'', ''b'', ''vendor'', ''c'']
   \<and> [''a'', ''b'', ''vendor'', ''c''] \<notin> set (scan_roots nested_fs [''a''])
   \<and> distinct (scan_roots nested_fs [''a''])"
proof -
  have wf: "wf_node nested_fs" by (simp add: nested_fs_def)
  have r: "[''a'', ''b''] \<in> set (scan_roots nested_fs [''a''])" by code_simp
  have g: "is_git_repository nested_fs [''a'', ''b'']" by code_simp
  have g': "is_git_repository nested_fs [''a'', ''b'', ''vendor'', ''c'']" by code_simp
  have pre: "prefix [''a'', ''b''] [''a'', ''b'', ''vendor'', ''c'']" by simp
  note t = scan_repositories_are_leaves [of nested_fs "[''a'']" nested_git, THEN conjunct1,
      rule_format, OF wf]
  have "[''a'', ''b'', ''vendor'', ''c''] \<notin> set (scan_roots nested_fs [''a''])"
  proof
    assume "[''a'', ''b'', ''vendor'', ''c''] \<in> set (scan_roots nested_fs [''a''])"
    with t [THEN conjunct2, THEN conjunct1, rule_format,
        of "[''a'', ''b'']" "[''a'', ''b'', ''vendor'', ''c'']"] r g pre
    have "[''a'', ''b'', ''vendor'', ''c''] = [''a'', ''b'']" by blast
    then show False by simp
  qed
  with wf r g g' pre t [THEN conjunct1] show ?thesis by blast
qed

section \<open>The migrator\<close>

subsection \<open>Claim C2\<close>

lemma filter_repositories_acc:
  "filter_repositories L forks (tm, sk) =
     (tm @ filter (\<lambda>r. nameWithOwner r \<notin> L) forks,
      sk @ map nameWithOwner (filter (\<lambda>r. nameWithOwner r \<in> L) forks))"
  by (induction forks arbitrary: tm sk) simp_all

text \<open>
  Claim C2. The loop sorts the listing into the records whose name is not among the
  local names, in listing order, and the names of the records whose name is; every
  record goes to exactly one side, and nothing but the two arguments is read. With
  forks \<open>A\<close>, \<open>B\<close>, \<open>C\<close> and the local name of \<open>B\<close> the result is \<open>[A, C]\<close> and the
  name of \<open>B\<close>.
\<close>

theorem filter_repositories_partition:
  "filter_repositories L forks ([], []) =
     (filter (\<lambda>r. nameWithOwner r \<notin> L) forks,
      map nameWithOwner (filter (\<lambda>r. nameWithOwner r \<in> L) forks))
   \<and> length (fst (filter_repositories L forks ([], []))) +
       length (snd (filter_repositories L forks ([], []))) = length forks
   \<and> subseq (fst (filter_repositories L forks ([], []))) forks
   \<and> (\<forall>A B C. nameWithOwner A \<noteq> nameWithOwner B \<and> nameWithOwner C \<noteq> nameWithOwner B \<longrightarrow>
        filter_repositories {nameWithOwner B} [A, B, C] ([], []) = ([A, C], [nameWithOwner B]))"
proof -
  have eq: "filter_repositories L forks ([], []) =
     (filter (\<lambda>r. nameWithOwner r \<notin> L) forks,
      map nameWithOwner (filter (\<lambda>r. nameWithOwner r \<in> L) forks))"
    by (simp add: filter_repositories_acc)
  have len: "length (filter (\<lambda>r. nameWithOwner r \<notin> L) forks) +
             length (map nameWithOwner (filter (\<lambda>r. nameWithOwner r \<in> L) forks)) = length forks"
    using sum_length_filter_compl [of "\<lambda>r. nameWithOwner r \<in> L" forks] by simp
  have ex: "filter_repositories {nameWithOwner B} [A, B, C] ([], []) = ([A, C], [nameWithOwner B])"
    if "nameWithOwner A \<noteq> nameWithOwner B \<and> nameWithOwner C \<noteq> nameWithOwner B" for A B C
    using that by simp
  show ?thesis
    unfolding eq fst_conv snd_conv
    apply (intro conjI allI impI)
    apply (rule refl)
    apply (rule len)
    apply (rule subseq_filter_left)
    apply (rule ex, assumption)
    done
qed

text \<open>C2 at three concrete records.\<close>

theorem filter_repositories_partition_witness:
  "nameWithOwner forkA \<noteq> nameWithOwner forkB \<and> nameWithOwner forkC \<noteq> nameWithOwner forkB \<and>
   filter_repositories {''alice/b''} [forkA, forkB, forkC] ([], []) = ([forkA, forkC], [''alice/b''])"
proof -
  have h: "nameWithOwner forkA \<noteq> nameWithOwner forkB \<and> nameWithOwner forkC \<noteq> nameWithOwner forkB"
    by (simp add: forkA_def forkB_def forkC_def)
  note t = filter_repositories_partition [of "{}" "[]", THEN conjunct2, THEN conjunct2, THEN conjunct2,
      rule_format, OF h]
  then show ?thesis using h by (simp add: forkB_def)
qed

subsection \<open>The confirmation\<close>

lemma of_char_py_lower_char:
  "(of_char (py_lower_char c) :: nat) =
     (if (65 \<le> (of_char c :: nat) \<and> (of_char c :: nat) \<le> 90) \<or>
         (192 \<le> (of_char c :: nat) \<and> (of_char c :: nat) \<le> 222 \<and> (of_char c :: nat) \<noteq> 215)
      then of_char c + 32 else of_char c)"
proof -
  have small: "(n + 32) mod 256 = n + 32" if "n \<le> 222" for n :: nat
    using that by (intro mod_less) simp
  show ?thesis
    by (simp only: py_lower_char_def Let_def of_char_of small split: if_split) (simp add: small)
qed

lemma py_lower_char_y:
  "py_lower_char c = CHR ''y'' \<longleftrightarrow> c = CHR ''y'' \<or> c = CHR ''Y''"
proof -
  let ?n = "of_char c :: nat"
  have y: "(of_char CHR ''y'' :: nat) = 121" by simp
  have Y: "(of_char CHR ''Y'' :: nat) = 89" by simp
  have "py_lower_char c = CHR ''y'' \<longleftrightarrow> (of_char (py_lower_char c) :: nat) = of_char CHR ''y''"
    by (simp only: of_char_eq_iff)
  also have "\<dots> \<longleftrightarrow> ?n = 121 \<or> ?n = 89"
    unfolding of_char_py_lower_char y by (simp only: split: if_split) arith
  also have "\<dots> \<longleftrightarrow> ?n = of_char CHR ''y'' \<or> ?n = of_char CHR ''Y''"
    by (simp only: y Y)
  also have "\<dots> \<longleftrightarrow> c = CHR ''y'' \<or> c = CHR ''Y''"
    by (simp only: of_char_eq_iff)
  finally show ?thesis .
qed

lemma py_lower_y: "py_lower s = ''y'' \<longleftrightarrow> s = ''y'' \<or> s = ''Y''"
proof (cases s)
  case Nil
  then show ?thesis by (simp add: py_lower_def)
next
  case (Cons c cs)
  have "py_lower s = ''y'' \<longleftrightarrow> cs = [] \<and> py_lower_char c = CHR ''y''"
    using Cons by (auto simp: py_lower_def)
  also have "\<dots> \<longleftrightarrow> cs = [] \<and> (c = CHR ''y'' \<or> c = CHR ''Y'')"
    by (simp only: py_lower_char_y)
  also have "\<dots> \<longleftrightarrow> s = ''y'' \<or> s = ''Y''"
    using Cons by auto
  finally show ?thesis .
qed

lemma py_lower_yes: "py_lower ''yes'' \<noteq> ''y''"
  by (simp add: py_lower_y)

subsection \<open>Calls and printed lines\<close>

lemma say_simps [simp]:
  "calls (say x st) = calls st" "out (say x st) = out st @ [x]"
  by (simp_all add: say_def)

lemma parent_repo_of_object:
  "parent_is_object r \<Longrightarrow> parent_repo_of r = Inr (parent_name r)"
  by (auto simp: parent_is_object_def parent_name_def parent_repo_of_def
      split: option.splits json.splits)

lemma parent_repo_of_not_object:
  "\<not> parent_is_object r \<Longrightarrow> parent_repo_of r = Inl AttributeError"
  by (auto simp: parent_is_object_def parent_repo_of_def split: option.splits json.splits)

lemma run_gh_command_calls:
  "calls (snd (run_gh_command e args token st)) = calls st @ [(args, token)]"
  by (simp add: run_gh_command_def Let_def split: option.splits)

lemma run_gh_command_out_tally:
  "filter is_tally (out (snd (run_gh_command e args token st))) = filter is_tally (out st)"
  by (simp add: run_gh_command_def Let_def split: option.splits)

lemma get_forked_calls:
  "calls (snd (get_forked_repositories m e st)) = calls st @ [(list_args m, source_token m)]"
proof -
  obtain r st1 where g: "run_gh_command e (list_args m) (source_token m)
      (say (MsgFetching (source_username m)) st) = (r, st1)" by (cases "run_gh_command e (list_args m) (source_token m)
      (say (MsgFetching (source_username m)) st)")
  from run_gh_command_calls [of e "list_args m" "source_token m" "say (MsgFetching (source_username m)) st"] g
  have "calls st1 = calls st @ [(list_args m, source_token m)]" by simp
  with g show ?thesis
    by (simp add: get_forked_repositories_def Let_def split: option.splits)
qed

lemma get_forked_tally:
  "filter is_tally (out (snd (get_forked_repositories m e st))) = filter is_tally (out st)"
proof -
  obtain r st1 where g: "run_gh_command e (list_args m) (source_token m)
      (say (MsgFetching (source_username m)) st) = (r, st1)" by (cases "run_gh_command e (list_args m) (source_token m)
      (say (MsgFetching (source_username m)) st)")
  from run_gh_command_out_tally [of e "list_args m" "source_token m" "say (MsgFetching (source_username m)) st"] g
  have "filter is_tally (out st1) = filter is_tally (out st)" by simp
  with g show ?thesis
    by (simp add: get_forked_repositories_def Let_def split: option.splits)
qed

lemma print_skipped_ok:
  "set sk \<subseteq> fst ` set lrepos \<Longrightarrow>
     print_skipped lrepos sk st = (Inr (), st\<lparr>out := out st @ skipped_lines lrepos sk\<rparr>)"
proof (induction sk arbitrary: st)
  case Nil
  then show ?case by simp
next
  case (Cons n ns)
  from Cons.prems have "map_of lrepos n \<noteq> None" by (simp add: map_of_eq_None_iff)
  then obtain info where i: "map_of lrepos n = Some info" by blast
  from Cons.prems have "set ns \<subseteq> fst ` set lrepos" by simp
  from Cons.IH [OF this] i show ?case by (simp add: say_def)
qed

lemma skipped_lines_tally: "filter is_tally (skipped_lines lrepos sk) = []"
  by (induction sk) (simp_all split: option.splits)

lemma summary_lines_tally: "filter is_tally (summary_lines lrepos forks tm sk) = []"
  by (simp add: summary_lines_def skipped_lines_tally)

subsection \<open>The pass over the candidates\<close>

text \<open>
  \<open>migrate_repositories\<close> after the listing and the partition: the summary lines
  are printed, then the run ends, goes on, or asks.
\<close>

lemma migrate_unfold:
  assumes g: "get_forked_repositories m e st = (forks, st1)"
    and f: "filter_repositories (set (map fst l)) forks ([], []) = (tm, sk)"
    and ne: "forks \<noteq> []"
  shows "migrate_repositories m e l dry st =
     (if tm = []
      then (Inr (), say MsgNothingToMigrate (st1\<lparr>out := out st1 @ summary_lines l forks tm sk\<rparr>))
      else if dry
      then perform_migration m e dry tm (st1\<lparr>out := out st1 @ summary_lines l forks tm sk\<rparr>)
      else (case confirm_migration m e (length tm)
                   (st1\<lparr>out := out st1 @ summary_lines l forks tm sk\<rparr>) of
              (Inl err, st3) \<Rightarrow> (Inl err, st3)
            | (Inr False, st3) \<Rightarrow> (Inr (), st3)
            | (Inr True, st3) \<Rightarrow> perform_migration m e dry tm st3))"
proof -
  from f have sk: "sk = map nameWithOwner (filter (\<lambda>r. nameWithOwner r \<in> set (map fst l)) forks)"
    by (simp add: filter_repositories_acc)
  then have sub: "set sk \<subseteq> fst ` set l" by auto
  let ?s = "MsgSummary (length forks) (length tm) (length sk)"
  have pre: "(if sk \<noteq> []
             then (case print_skipped l sk (say MsgSkippingHeader (say ?s st1)) of
                     (Inl err, st2) \<Rightarrow> (Inl err, st2)
                   | (Inr u, st2) \<Rightarrow> (Inr u, say MsgBlank st2))
             else (Inr (), say ?s st1)) =
            (Inr (), st1\<lparr>out := out st1 @ summary_lines l forks tm sk\<rparr>)"
    by (simp add: print_skipped_ok [OF sub] summary_lines_def say_def)
  show ?thesis
    unfolding migrate_repositories_def g f prod.case pre using ne
    by (simp only: if_False sum.case prod.case)
qed

lemma fork_repository_dry:
  "fork_repository m e p True st = (Inr True, say (MsgWouldFork p) st)"
  by (simp add: fork_repository_def)

lemma map_filter_append:
  "List.map_filter f (xs @ ys) = List.map_filter f xs @ List.map_filter f ys"
  by (simp add: List.map_filter_def)

lemma fork_repository_real:
  "\<exists>b st'. fork_repository m e (JStr s) False st = (Inr b, st') \<and>
     calls st' = calls st @ [(fork_args s, target_token m)] \<and>
     List.map_filter fork_target (out st') = List.map_filter fork_target (out st) @ [JStr s] \<and>
     List.map_filter no_parent_name (out st') = List.map_filter no_parent_name (out st)"
proof -
  let ?st1 = "say (MsgForking (JStr s)) st"
  obtain r st2 where g: "run_gh_command e (fork_args s) (target_token m) ?st1 = (r, st2)"
    by (cases "run_gh_command e (fork_args s) (target_token m) ?st1")
  have c: "calls st2 = calls st @ [(fork_args s, target_token m)]"
    using run_gh_command_calls [of e "fork_args s" "target_token m" ?st1] g by simp
  have o: "out st2 = out st @ [MsgForking (JStr s)] \<or>
           out st2 = out st @ [MsgForking (JStr s), MsgGhError]"
    using g by (auto simp: run_gh_command_def Let_def say_def split: option.splits)
  then have t: "List.map_filter fork_target (out st2) = List.map_filter fork_target (out st) @ [JStr s]"
    and n: "List.map_filter no_parent_name (out st2) = List.map_filter no_parent_name (out st)"
    by (auto simp: map_filter_append List.map_filter_simps)
  show ?thesis
    using g c t n
    by (cases r) (auto simp: fork_repository_def Let_def map_filter_append List.map_filter_simps)
qed

text \<open>
  The loop on records that raise nothing: it returns; every record with a parent
  name is counted once, as a success or as a failure; outside a dry run one
  \<^verbatim>\<open>gh repo fork\<close> call is made for each of them, with the parent's name, in listing
  order; every other record gets the no-parent diagnostic, in listing order.
\<close>

lemma migrate_loop_ok:
  assumes "\<forall>r \<in> set rs. loop_safe dry r"
  shows "\<exists>s' f' st'. migrate_loop m e dry rs (s, f) st = (Inr (s', f'), st') \<and>
     s' + f' = s + f + length (filter has_parent rs) \<and>
     (dry \<longrightarrow> f' = f) \<and>
     calls st' = calls st @ (if dry then [] else map (fork_call m) (filter has_parent rs)) \<and>
     List.map_filter fork_target (out st') =
       List.map_filter fork_target (out st) @ map parent_name (filter has_parent rs) \<and>
     List.map_filter no_parent_name (out st') =
       List.map_filter no_parent_name (out st) @
       map nameWithOwner (filter (\<lambda>r. \<not> has_parent r) rs)"
  using assms
proof (induction rs arbitrary: s f st)
  case Nil
  show ?case by simp
next
  case (Cons r rs)
  from Cons.prems have safe: "loop_safe dry r" and rest: "\<forall>r \<in> set rs. loop_safe dry r"
    by simp_all
  from safe have po: "parent_repo_of r = Inr (parent_name r)"
    by (simp add: loop_safe_def parent_repo_of_object)
  show ?case
  proof (cases "has_parent r")
    case False
    then have t: "\<not> truthy (parent_name r)" by (simp add: has_parent_def)
    from Cons.IH [OF rest, of s f "say (MsgNoParent (nameWithOwner r)) st"]
    obtain s' f' st' where
      "migrate_loop m e dry rs (s, f) (say (MsgNoParent (nameWithOwner r)) st) = (Inr (s', f'), st')"
      "s' + f' = s + f + length (filter has_parent rs)" "dry \<longrightarrow> f' = f"
      "calls st' = calls (say (MsgNoParent (nameWithOwner r)) st) @
         (if dry then [] else map (fork_call m) (filter has_parent rs))"
      "List.map_filter fork_target (out st') =
         List.map_filter fork_target (out (say (MsgNoParent (nameWithOwner r)) st)) @
         map parent_name (filter has_parent rs)"
      "List.map_filter no_parent_name (out st') =
         List.map_filter no_parent_name (out (say (MsgNoParent (nameWithOwner r)) st)) @
         map nameWithOwner (filter (\<lambda>r. \<not> has_parent r) rs)"
      by blast
    with False t po show ?thesis
      by (simp add: map_filter_append List.map_filter_simps)
  next
    case True
    then have t: "truthy (parent_name r)" by (simp add: has_parent_def)
    have "\<exists>b st1. fork_repository m e (parent_name r) dry st = (Inr b, st1) \<and>
        (dry \<longrightarrow> b) \<and>
        calls st1 = calls st @ (if dry then [] else [fork_call m r]) \<and>
        List.map_filter fork_target (out st1) =
          List.map_filter fork_target (out st) @ [parent_name r] \<and>
        List.map_filter no_parent_name (out st1) = List.map_filter no_parent_name (out st)"
    proof (cases dry)
      case True
      then show ?thesis
        by (intro exI [of _ True] exI [of _ "say (MsgWouldFork (parent_name r)) st"])
           (simp add: fork_repository_dry map_filter_append List.map_filter_simps)
    next
      case False
      with safe True have "is_str (parent_name r)" by (simp add: loop_safe_def)
      then obtain x where x: "parent_name r = JStr x" by (cases "parent_name r") simp_all
      from fork_repository_real [of m e x st] False x show ?thesis
        by (simp add: fork_call_def)
    qed
    then obtain b st1 where fr: "fork_repository m e (parent_name r) dry st = (Inr b, st1)"
      and db: "dry \<longrightarrow> b"
      and c1: "calls st1 = calls st @ (if dry then [] else [fork_call m r])"
      and t1: "List.map_filter fork_target (out st1) =
               List.map_filter fork_target (out st) @ [parent_name r]"
      and n1: "List.map_filter no_parent_name (out st1) = List.map_filter no_parent_name (out st)"
      by blast
    let ?s1 = "if b then s + 1 else s" and ?f1 = "if b then f else f + 1"
    from Cons.IH [OF rest, of ?s1 ?f1 st1]
    obtain s' f' st' where
      ih: "migrate_loop m e dry rs (?s1, ?f1) st1 = (Inr (s', f'), st')"
      "s' + f' = ?s1 + ?f1 + length (filter has_parent rs)" "dry \<longrightarrow> f' = ?f1"
      "calls st' = calls st1 @ (if dry then [] else map (fork_call m) (filter has_parent rs))"
      "List.map_filter fork_target (out st') =
         List.map_filter fork_target (out st1) @ map parent_name (filter has_parent rs)"
      "List.map_filter no_parent_name (out st') =
         List.map_filter no_parent_name (out st1) @
         map nameWithOwner (filter (\<lambda>r. \<not> has_parent r) rs)"
      by blast
    have step: "migrate_loop m e dry (r # rs) (s, f) st = migrate_loop m e dry rs (?s1, ?f1) st1"
      using po t fr by (cases b) simp_all
    show ?thesis
      unfolding step using ih True db c1 t1 n1 by (cases b) auto
  qed
qed

lemma migrate_loop_dry:
  "\<forall>r \<in> set rs. parent_is_object r \<Longrightarrow>
     migrate_loop m e True rs (s, f) st =
       (Inr (s + length (filter has_parent rs), f), st\<lparr>out := out st @ map dry_line rs\<rparr>)"
proof (induction rs arbitrary: s st)
  case Nil
  show ?case by simp
next
  case (Cons r rs)
  from Cons.prems have po: "parent_repo_of r = Inr (parent_name r)"
    and rest: "\<forall>r \<in> set rs. parent_is_object r"
    by (simp_all add: parent_repo_of_object)
  show ?case
    using po Cons.IH [OF rest]
    by (simp add: fork_repository_dry has_parent_def dry_line_def say_def)
qed

lemma migrate_loop_dry_calls:
  "calls (snd (migrate_loop m e True rs (s, f) st)) = calls st"
proof (induction rs arbitrary: s f st)
  case Nil
  show ?case by simp
next
  case (Cons r rs)
  show ?case
    by (cases "parent_repo_of r") (simp_all add: fork_repository_dry Cons.IH)
qed

lemma perform_migration_dry_calls:
  "calls (snd (perform_migration m e True tm st)) = calls st"
proof -
  obtain r st1 where l: "migrate_loop m e True tm (0, 0) (say MsgStarting st) = (r, st1)"
    by (cases "migrate_loop m e True tm (0, 0) (say MsgStarting st)")
  from migrate_loop_dry_calls [of m e tm 0 0 "say MsgStarting st"] l
  have "calls st1 = calls st" by simp
  with l show ?thesis
    by (cases r) (auto simp: perform_migration_def Let_def)
qed

lemma migrate_dry_calls:
  "calls (snd (migrate_repositories m e l True st)) = calls st @ [(list_args m, source_token m)]"
proof -
  obtain forks st1 where g: "get_forked_repositories m e st = (forks, st1)"
    by (cases "get_forked_repositories m e st")
  obtain tm sk where f: "filter_repositories (set (map fst l)) forks ([], []) = (tm, sk)"
    by (cases "filter_repositories (set (map fst l)) forks ([], [])")
  from get_forked_calls [of m e st] g
  have c1: "calls st1 = calls st @ [(list_args m, source_token m)]" by simp
  show ?thesis
  proof (cases "forks = []")
    case True
    with g c1 show ?thesis by (simp add: migrate_repositories_def)
  next
    case False
    show ?thesis
      unfolding migrate_unfold [OF g f False]
      using c1 by (simp add: perform_migration_dry_calls)
  qed
qed

lemma migrate_dry_run:
  assumes g: "get_forked_repositories m e st = (forks, st1)"
    and f: "filter_repositories (set (map fst l)) forks ([], []) = (tm, sk)"
    and ne: "tm \<noteq> []"
    and ok: "\<forall>r \<in> set tm. parent_is_object r"
  shows "migrate_repositories m e l True st =
     (Inr (), st1\<lparr>out := out st1 @ summary_lines l forks tm sk @ [MsgStarting] @
                     map dry_line tm @
                     [MsgComplete, MsgSuccessful (length (filter has_parent tm))]\<rparr>)"
proof -
  from f ne have fne: "forks \<noteq> []" by (auto simp: filter_repositories_acc)
  show ?thesis
    unfolding migrate_unfold [OF g f fne] perform_migration_def
    using ne by (simp add: migrate_loop_dry [OF ok] say_def)
qed

lemma migrate_cancel:
  assumes g: "get_forked_repositories m e st = (forks, st1)"
    and f: "filter_repositories (set (map fst l)) forks ([], []) = (tm, sk)"
    and ne: "tm \<noteq> []"
    and r: "stdin_line e = Some reply" "py_lower reply \<noteq> ''y''"
  shows "migrate_repositories m e l False st =
     (Inr (), st1\<lparr>out := out st1 @ summary_lines l forks tm sk @
                     [MsgAboutToMigrate (length tm) (target_username m), MsgCancelled]\<rparr>)"
proof -
  from f ne have fne: "forks \<noteq> []" by (auto simp: filter_repositories_acc)
  show ?thesis
    unfolding migrate_unfold [OF g f fne]
    using ne r by (simp add: confirm_migration_def Let_def say_def)
qed

lemma migrate_declined:
  assumes r: "stdin_line e = Some reply" "py_lower reply \<noteq> ''y''"
  shows "fst (migrate_repositories m e l False st) = Inr ()"
    and "calls (snd (migrate_repositories m e l False st)) =
           calls st @ [(list_args m, source_token m)]"
    and "filter is_tally (out (snd (migrate_repositories m e l False st))) =
           filter is_tally (out st)"
    and "fst (filter_repositories (set (map fst l)) (fst (get_forked_repositories m e st))
               ([], [])) \<noteq> [] \<Longrightarrow>
         last (out (snd (migrate_repositories m e l False st))) = MsgCancelled"
proof -
  obtain forks st1 where g: "get_forked_repositories m e st = (forks, st1)"
    by (cases "get_forked_repositories m e st")
  obtain tm sk where f: "filter_repositories (set (map fst l)) forks ([], []) = (tm, sk)"
    by (cases "filter_repositories (set (map fst l)) forks ([], [])")
  from get_forked_calls [of m e st] g
  have c1: "calls st1 = calls st @ [(list_args m, source_token m)]" by simp
  from get_forked_tally [of m e st] g
  have t1: "filter is_tally (out st1) = filter is_tally (out st)" by simp
  have all: "fst (migrate_repositories m e l False st) = Inr () \<and>
     calls (snd (migrate_repositories m e l False st)) = calls st @ [(list_args m, source_token m)] \<and>
     filter is_tally (out (snd (migrate_repositories m e l False st))) = filter is_tally (out st) \<and>
     (tm \<noteq> [] \<longrightarrow> last (out (snd (migrate_repositories m e l False st))) = MsgCancelled)"
  proof (cases "forks = []")
    case True
    with f have "tm = []" by simp
    with True g c1 t1 show ?thesis by (simp add: migrate_repositories_def)
  next
    case False
    show ?thesis
    proof (cases "tm = []")
      case True
      then show ?thesis
        unfolding migrate_unfold [OF g f False] using c1 t1
        by (simp add: summary_lines_tally)
    next
      case ne: False
      show ?thesis
        unfolding migrate_cancel [OF g f ne r] using c1 t1 ne
        by (simp add: summary_lines_tally)
    qed
  qed
  from all show "fst (migrate_repositories m e l False st) = Inr ()" by blast
  from all show "calls (snd (migrate_repositories m e l False st)) =
           calls st @ [(list_args m, source_token m)]" by blast
  from all show "filter is_tally (out (snd (migrate_repositories m e l False st))) =
           filter is_tally (out st)" by blast
  from all g f show "fst (filter_repositories (set (map fst l)) (fst (get_forked_repositories m e st))
               ([], [])) \<noteq> [] \<Longrightarrow>
         last (out (snd (migrate_repositories m e l False st))) = MsgCancelled" by simp
qed

text \<open>
  Five runs, evaluated: a listing whose first record has \<^verbatim>\<open>"parent": null\<close>,
  confirmed; dry runs on \<open>[B]\<close>, \<open>[A, B]\<close> and \<open>[A]\<close>; a run on \<open>[A]\<close> answered
  \<^verbatim>\<open>n\<close>.
\<close>

lemma example_runs:
  "migrate_repositories example_migrator (example_env [forkC, forkA] (Some ''y'')) [] False
     empty_state =
     (Inl AttributeError,
      \<lparr>calls = [(list_args example_migrator, ''src-token'')],
       out = [MsgFetching ''alice'', MsgForkCount 2, MsgSummary 2 2 0,
              MsgAboutToMigrate 2 ''bob'', MsgStarting]\<rparr>)"
  "migrate_repositories example_migrator (example_env [forkB] None) [] True empty_state =
     (Inr (),
      \<lparr>calls = [(list_args example_migrator, ''src-token'')],
       out = [MsgFetching ''alice'', MsgForkCount 1, MsgSummary 1 1 0, MsgStarting,
              MsgNoParent ''alice/b'', MsgComplete, MsgSuccessful 0]\<rparr>)"
  "migrate_repositories example_migrator (example_env [forkA] (Some ''n'')) [] False empty_state =
     (Inr (),
      \<lparr>calls = [(list_args example_migrator, ''src-token'')],
       out = [MsgFetching ''alice'', MsgForkCount 1, MsgSummary 1 1 0,
              MsgAboutToMigrate 1 ''bob'', MsgCancelled]\<rparr>)"
  "migrate_repositories example_migrator (example_env [forkA, forkB] None) [] True empty_state =
     (Inr (),
      \<lparr>calls = [(list_args example_migrator, ''src-token'')],
       out = [MsgFetching ''alice'', MsgForkCount 2, MsgSummary 2 2 0, MsgStarting,
              MsgWouldFork (JStr ''up/a''), MsgNoParent ''alice/b'', MsgComplete,
              MsgSuccessful 1]\<rparr>)"
  "migrate_repositories example_migrator (example_env [forkA] None) [] True empty_state =
     (Inr (),
      \<lparr>calls = [(list_args example_migrator, ''src-token'')],
       out = [MsgFetching ''alice'', MsgForkCount 1, MsgSummary 1 1 0, MsgStarting,
              MsgWouldFork (JStr ''up/a''), MsgComplete, MsgSuccessful 1]\<rparr>)"
  by code_simp+

lemma no_parent_cases:
  "parent r = None \<Longrightarrow> \<not> has_parent r \<and> loop_safe dry r"
  "parent r = Some (JObj kvs) \<Longrightarrow> map_of kvs ''nameWithOwner'' = None \<Longrightarrow>
     \<not> has_parent r \<and> loop_safe dry r"
  by (simp_all add: has_parent_def loop_safe_def parent_name_def parent_repo_of_def
      parent_is_object_def)

subsection \<open>Claim C3\<close>

text \<open>
  Claim C3: every candidate with a resolvable parent identity is forked from its
  parent's identity, in listing order. The run below is the code at a listing where
  it does not hold: the first record has \<^verbatim>\<open>"parent": null\<close>, for which
  \<^verbatim>\<open>repo.get('parent', {})\<close> returns \<open>None\<close> and the second \<open>get\<close> raises
  \<open>AttributeError\<close>. The pass ends there; the second record, whose parent is
  \<^verbatim>\<open>up/a\<close>, is never forked: the only \<^verbatim>\<open>gh\<close> call is the listing.
\<close>

theorem migrate_null_parent_aborts:
  "parent forkC = Some JNull
   \<and> parent_repo_of forkA = Inr (JStr ''up/a'')
   \<and> migrate_repositories example_migrator (example_env [forkC, forkA] (Some ''y'')) [] False
       empty_state =
     (Inl AttributeError,
      \<lparr>calls = [(list_args example_migrator, ''src-token'')],
       out = [MsgFetching ''alice'', MsgForkCount 2, MsgSummary 2 2 0,
              MsgAboutToMigrate 2 ''bob'', MsgStarting]\<rparr>)"
  using example_runs(1) by (simp add: forkC_def forkA_def parent_repo_of_def)

subsection \<open>Claim C4\<close>

text \<open>
  Claim C4, as stated: a dry run makes no create-fork call and its final successful
  count is the number of candidates. The count fails on a candidate without a parent:
  it is skipped with the no-parent diagnostic, and the run with the one candidate \<open>B\<close>
  reports \<open>0\<close> successful.
\<close>

theorem dry_run_count_counterexample:
  "filter_repositories {} [forkB] ([], []) = ([forkB], [])
   \<and> migrate_repositories example_migrator (example_env [forkB] None) [] True empty_state =
     (Inr (),
      \<lparr>calls = [(list_args example_migrator, ''src-token'')],
       out = [MsgFetching ''alice'', MsgForkCount 1, MsgSummary 1 1 0, MsgStarting,
              MsgNoParent ''alice/b'', MsgComplete, MsgSuccessful 0]\<rparr>)"
  using example_runs(2) by simp

text \<open>
  Claim C4, amended. For every input a dry run makes no create-fork call: its only
  call of \<^verbatim>\<open>gh\<close> is the listing. When there is at least one candidate and the
  parent of every candidate is missing or an object, the dry run prints a would-fork
  line for every candidate that carries a parent name and the no-parent diagnostic
  for every other, in listing order, and its final successful count is the number of
  candidates that carry a parent name; no failed count is printed. The condition on
  the parents leaves out the records with \<^verbatim>\<open>"parent": null\<close> of claim C3, on which
  line 240 raises in a dry run as well.
\<close>

theorem dry_run_performs_no_fork:
  "calls (snd (migrate_repositories m e l True st)) = calls st @ [(list_args m, source_token m)]
   \<and> (get_forked_repositories m e st = (forks, st1) \<and>
      filter_repositories (set (map fst l)) forks ([], []) = (tm, sk) \<and>
      tm \<noteq> [] \<and> (\<forall>r \<in> set tm. parent_is_object r) \<longrightarrow>
      migrate_repositories m e l True st =
        (Inr (), st1\<lparr>out := out st1 @ summary_lines l forks tm sk @ [MsgStarting] @
                        map dry_line tm @
                        [MsgComplete, MsgSuccessful (length (filter has_parent tm))]\<rparr>))"
  using migrate_dry_calls [of m e l st] migrate_dry_run [of m e st forks st1 l tm sk]
  by blast

text \<open>
  C4 amended on the listing \<open>[A, B]\<close>: one of two candidates is counted.
\<close>

theorem dry_run_performs_no_fork_witness:
  "get_forked_repositories example_migrator (example_env [forkA, forkB] None) empty_state =
     ([forkA, forkB],
      \<lparr>calls = [(list_args example_migrator, ''src-token'')],
       out = [MsgFetching ''alice'', MsgForkCount 2]\<rparr>)
   \<and> filter_repositories (set (map fst ([] :: (string \<times> local_info) list))) [forkA, forkB] ([], []) =
       ([forkA, forkB], [])
   \<and> [forkA, forkB] \<noteq> []
   \<and> parent_is_object forkA \<and> parent_is_object forkB
   \<and> migrate_repositories example_migrator (example_env [forkA, forkB] None) [] True empty_state =
       (Inr (),
        \<lparr>calls = [(list_args example_migrator, ''src-token'')],
         out = [MsgFetching ''alice'', MsgForkCount 2, MsgSummary 2 2 0, MsgStarting,
                MsgWouldFork (JStr ''up/a''), MsgNoParent ''alice/b'', MsgComplete,
                MsgSuccessful 1]\<rparr>)"
proof -
  have g: "get_forked_repositories example_migrator (example_env [forkA, forkB] None) empty_state =
     ([forkA, forkB],
      \<lparr>calls = [(list_args example_migrator, ''src-token'')],
       out = [MsgFetching ''alice'', MsgForkCount 2]\<rparr>)"
    by code_simp
  have f: "filter_repositories (set (map fst ([] :: (string \<times> local_info) list))) [forkA, forkB] ([], []) =
       ([forkA, forkB], [])"
    by simp
  have ne: "[forkA, forkB] \<noteq> []" by simp
  have po: "\<forall>r \<in> set [forkA, forkB]. parent_is_object r"
    by (simp add: parent_is_object_def forkA_def forkB_def)
  have hA: "has_parent forkA" "parent_name forkA = JStr ''up/a''"
    by (simp_all add: has_parent_def parent_name_def parent_repo_of_def forkA_def)
  have hB: "\<not> has_parent forkB" "nameWithOwner forkB = ''alice/b''"
    by (simp_all add: has_parent_def parent_name_def parent_repo_of_def forkB_def)
  from dry_run_performs_no_fork [of example_migrator "example_env [forkA, forkB] None" "[]"
      empty_state "[forkA, forkB]" _ "[forkA, forkB]" "[]", THEN conjunct2, rule_format,
      OF conjI [OF g conjI [OF f conjI [OF ne po]]]]
  have "migrate_repositories example_migrator (example_env [forkA, forkB] None) [] True empty_state =
       (Inr (),
        \<lparr>calls = [(list_args example_migrator, ''src-token'')],
         out = [MsgFetching ''alice'', MsgForkCount 2, MsgSummary 2 2 0, MsgStarting,
                MsgWouldFork (JStr ''up/a''), MsgNoParent ''alice/b'', MsgComplete,
                MsgSuccessful 1]\<rparr>)"
    by (simp add: summary_lines_def dry_line_def hA hB)
  with g f ne po show ?thesis by simp
qed

subsection \<open>Claim C5\<close>

text \<open>
  Claim C5, as stated: after a non-affirmative answer no fork is created and the
  final tally shows zero successful and zero failed. No tally is shown: the function
  returns after \<^verbatim>\<open>Migration cancelled.\<close>, before the lines that print the counts.
\<close>

theorem cancel_prints_no_tally_counterexample:
  "migrate_repositories example_migrator (example_env [forkA] (Some ''n'')) [] False empty_state =
     (Inr (),
      \<lparr>calls = [(list_args example_migrator, ''src-token'')],
       out = [MsgFetching ''alice'', MsgForkCount 1, MsgSummary 1 1 0,
              MsgAboutToMigrate 1 ''bob'', MsgCancelled]\<rparr>)
   \<and> MsgSuccessful 0 \<notin> set (out (snd (migrate_repositories example_migrator
          (example_env [forkA] (Some ''n'')) [] False empty_state)))"
  using example_runs(3) by simp

text \<open>
  Claim C5, amended: when the run is not dry and the answer is non-affirmative, the
  migration returns normally, the only \<^verbatim>\<open>gh\<close> call is the listing, so no fork is
  created, no line of the final tally is printed, and when there are candidates the
  last line printed is the cancellation.
\<close>

theorem cancelled_migration:
  "stdin_line e = Some reply \<and> py_lower reply \<noteq> ''y'' \<longrightarrow>
     fst (migrate_repositories m e l False st) = Inr ()
     \<and> calls (snd (migrate_repositories m e l False st)) =
         calls st @ [(list_args m, source_token m)]
     \<and> filter is_tally (out (snd (migrate_repositories m e l False st))) =
         filter is_tally (out st)
     \<and> (fst (filter_repositories (set (map fst l)) (fst (get_forked_repositories m e st))
               ([], [])) \<noteq> [] \<longrightarrow>
        last (out (snd (migrate_repositories m e l False st))) = MsgCancelled)"
  using migrate_declined [where e=e and reply=reply and m=m and l=l and st=st] by blast

text \<open>
  C5 amended on the listing \<open>[A]\<close> answered \<^verbatim>\<open>no\<close>.
\<close>

theorem cancelled_migration_witness:
  "stdin_line (example_env [forkA] (Some ''no'')) = Some ''no'' \<and> py_lower ''no'' \<noteq> ''y''
   \<and> fst (filter_repositories (set (map fst ([] :: (string \<times> local_info) list)))
            (fst (get_forked_repositories example_migrator (example_env [forkA] (Some ''no''))
                    empty_state)) ([], [])) \<noteq> []
   \<and> fst (migrate_repositories example_migrator (example_env [forkA] (Some ''no'')) [] False
            empty_state) = Inr ()
   \<and> calls (snd (migrate_repositories example_migrator (example_env [forkA] (Some ''no'')) []
                   False empty_state)) = [(list_args example_migrator, ''src-token'')]
   \<and> filter is_tally (out (snd (migrate_repositories example_migrator
        (example_env [forkA] (Some ''no'')) [] False empty_state))) = []
   \<and> last (out (snd (migrate_repositories example_migrator (example_env [forkA] (Some ''no''))
                       [] False empty_state))) = MsgCancelled"
proof -
  have h: "stdin_line (example_env [forkA] (Some ''no'')) = Some ''no'' \<and> py_lower ''no'' \<noteq> ''y''"
    by (simp add: example_env_def py_lower_y)
  have t: "fst (filter_repositories (set (map fst ([] :: (string \<times> local_info) list)))
            (fst (get_forked_repositories example_migrator (example_env [forkA] (Some ''no''))
                    empty_state)) ([], [])) \<noteq> []"
    by code_simp
  note c = cancelled_migration [of "example_env [forkA] (Some ''no'')" "''no''" example_migrator
      "[]" empty_state, rule_format, OF h]
  from c [THEN conjunct1] c [THEN conjunct2, THEN conjunct1]
    c [THEN conjunct2, THEN conjunct2, THEN conjunct1]
    c [THEN conjunct2, THEN conjunct2, THEN conjunct2, rule_format, OF t] h t
  show ?thesis by (simp add: empty_state_def example_migrator_def)
qed

subsection \<open>Claim C6\<close>

text \<open>
  Claim C6, as stated: a candidate without a parent is kept from the fork attempts,
  gets a no-parent diagnostic and is counted separately, not as a failure. The
  code keeps the two counters \<open>successful\<close> and \<open>failed\<close> only: the tally of a dry
  run on \<open>[A, B]\<close>, where \<open>B\<close> has no parent, is the tally of the run on \<open>[A]\<close>, and
  no count of \<open>B\<close> appears in it.
\<close>

theorem no_parent_not_counted_counterexample:
  "parent forkB = None
   \<and> filter is_tally (out (snd (migrate_repositories example_migrator
        (example_env [forkA, forkB] None) [] True empty_state))) = [MsgSuccessful 1]
   \<and> filter is_tally (out (snd (migrate_repositories example_migrator
        (example_env [forkA] None) [] True empty_state))) = [MsgSuccessful 1]"
  using example_runs(4) example_runs(5) by (simp add: forkB_def)

text \<open>
  Claim C6, amended. A candidate whose \<^verbatim>\<open>parent\<close> key is missing, or whose parent
  object has no \<^verbatim>\<open>nameWithOwner\<close>, carries no parent name, and its own turn of the
  loop raises nothing. In a pass in which no candidate raises (the parent of every
  candidate is missing or an object and, outside a dry run, every parent name is a
  string) the pass returns; the fork calls and fork lines are those of the candidates
  that carry a parent name, so a candidate without one is kept from the fork
  attempts; every candidate without a parent name gets the no-parent diagnostic with
  its own name, in listing order; and the final tally is the successful count and,
  when it is positive, the failed count, and nothing else, where the two counts add
  up to the number of candidates that carry a parent name: a candidate without one
  is counted neither as a success nor as a failure, and nowhere else. The condition
  on the pass leaves out the records with \<^verbatim>\<open>"parent": null\<close> of claim C3.
\<close>

theorem no_parent_skipped:
  "((parent r = None \<or> (\<exists>kvs. parent r = Some (JObj kvs) \<and> map_of kvs ''nameWithOwner'' = None))
      \<longrightarrow> \<not> has_parent r \<and> loop_safe dry r)
   \<and> ((\<forall>r \<in> set rs. loop_safe dry r) \<longrightarrow>
       (\<exists>s' f' st'.
          migrate_loop m e dry rs (0, 0) (say MsgStarting st) = (Inr (s', f'), st') \<and>
          perform_migration m e dry rs st =
            (Inr (), st'\<lparr>out := out st' @ [MsgComplete, MsgSuccessful s'] @
                                (if 0 < f' then [MsgFailed f'] else [])\<rparr>) \<and>
          s' + f' = length (filter has_parent rs) \<and>
          calls st' = calls st @ (if dry then [] else map (fork_call m) (filter has_parent rs)) \<and>
          List.map_filter fork_target (out st') =
            List.map_filter fork_target (out st) @ map parent_name (filter has_parent rs) \<and>
          List.map_filter no_parent_name (out st') =
            List.map_filter no_parent_name (out st) @
            map nameWithOwner (filter (\<lambda>r. \<not> has_parent r) rs)))"
proof (intro conjI impI)
  assume "parent r = None \<or> (\<exists>kvs. parent r = Some (JObj kvs) \<and> map_of kvs ''nameWithOwner'' = None)"
  then show "\<not> has_parent r" and "loop_safe dry r"
    using no_parent_cases [where r=r and dry=dry] by blast+
next
  assume a: "\<forall>r \<in> set rs. loop_safe dry r"
  from migrate_loop_ok [OF a, of m e 0 0 "say MsgStarting st"]
  obtain s' f' st' where
    l: "migrate_loop m e dry rs (0, 0) (say MsgStarting st) = (Inr (s', f'), st')"
    and n: "s' + f' = 0 + 0 + length (filter has_parent rs)"
    and c: "calls st' = calls (say MsgStarting st) @
              (if dry then [] else map (fork_call m) (filter has_parent rs))"
    and t: "List.map_filter fork_target (out st') =
              List.map_filter fork_target (out (say MsgStarting st)) @
              map parent_name (filter has_parent rs)"
    and d: "List.map_filter no_parent_name (out st') =
              List.map_filter no_parent_name (out (say MsgStarting st)) @
              map nameWithOwner (filter (\<lambda>r. \<not> has_parent r) rs)"
    by blast
  have p: "perform_migration m e dry rs st =
            (Inr (), st'\<lparr>out := out st' @ [MsgComplete, MsgSuccessful s'] @
                                (if 0 < f' then [MsgFailed f'] else [])\<rparr>)"
    unfolding perform_migration_def l by (simp add: Let_def say_def)
  from n have n': "s' + f' = length (filter has_parent rs)" by simp
  from c have c': "calls st' = calls st @
      (if dry then [] else map (fork_call m) (filter has_parent rs))" by simp
  from t have t': "List.map_filter fork_target (out st') =
      List.map_filter fork_target (out st) @ map parent_name (filter has_parent rs)"
    by (simp add: map_filter_append List.map_filter_simps)
  from d have d': "List.map_filter no_parent_name (out st') =
      List.map_filter no_parent_name (out st) @
      map nameWithOwner (filter (\<lambda>r. \<not> has_parent r) rs)"
    by (simp add: map_filter_append List.map_filter_simps)
  show "\<exists>s' f' st'.
          migrate_loop m e dry rs (0, 0) (say MsgStarting st) = (Inr (s', f'), st') \<and>
          perform_migration m e dry rs st =
            (Inr (), st'\<lparr>out := out st' @ [MsgComplete, MsgSuccessful s'] @
                                (if 0 < f' then [MsgFailed f'] else [])\<rparr>) \<and>
          s' + f' = length (filter has_parent rs) \<and>
          calls st' = calls st @ (if dry then [] else map (fork_call m) (filter has_parent rs)) \<and>
          List.map_filter fork_target (out st') =
            List.map_filter fork_target (out st) @ map parent_name (filter has_parent rs) \<and>
          List.map_filter no_parent_name (out st') =
            List.map_filter no_parent_name (out st) @
            map nameWithOwner (filter (\<lambda>r. \<not> has_parent r) rs)"
    apply (rule exI [of _ s'], rule exI [of _ f'], rule exI [of _ st'])
    apply (intro conjI)
    apply (rule l) apply (rule p) apply (rule n') apply (rule c') apply (rule t') apply (rule d')
    done
qed

text \<open>
  C6 amended on \<open>[A, B]\<close>, not a dry run: one call, for the parent of \<open>A\<close>, the
  diagnostic for \<open>B\<close>, and one record counted.
\<close>

theorem no_parent_skipped_witness:
  "parent forkB = None
   \<and> loop_safe False forkA \<and> loop_safe False forkB
   \<and> \<not> has_parent forkB
   \<and> (\<exists>s' f' st'.
        migrate_loop example_migrator (example_env [] None) False [forkA, forkB] (0, 0)
          (say MsgStarting empty_state) = (Inr (s', f'), st') \<and>
        perform_migration example_migrator (example_env [] None) False [forkA, forkB]
          empty_state =
          (Inr (), st'\<lparr>out := out st' @ [MsgComplete, MsgSuccessful s'] @
                              (if 0 < f' then [MsgFailed f'] else [])\<rparr>) \<and>
        s' + f' = 1 \<and>
        calls st' = [([''repo'', ''fork'', ''up/a'', ''--fork-name'', ''a''], ''tgt-token'')] \<and>
        List.map_filter fork_target (out st') = [JStr ''up/a''] \<and>
        List.map_filter no_parent_name (out st') = [''alice/b''])"
proof -
  have pB: "parent forkB = None" by (simp add: forkB_def)
  have hA: "has_parent forkA" "parent_name forkA = JStr ''up/a''"
    by (simp_all add: has_parent_def parent_name_def parent_repo_of_def forkA_def)
  have hB: "\<not> has_parent forkB" "nameWithOwner forkB = ''alice/b''"
    by (simp_all add: has_parent_def parent_name_def parent_repo_of_def forkB_def)
  have safe: "\<forall>r \<in> set [forkA, forkB]. loop_safe False r"
    using hA hB by (simp add: loop_safe_def parent_is_object_def forkA_def forkB_def)
  have call: "fork_call example_migrator forkA =
      ([''repo'', ''fork'', ''up/a'', ''--fork-name'', ''a''], ''tgt-token'')"
    by (simp add: fork_call_def hA fork_args_def last_segment_def example_migrator_def)
  note t = no_parent_skipped [where r=forkB and dry=False and rs="[forkA, forkB]"
      and m=example_migrator and e="example_env [] None" and st=empty_state]
  from t [THEN conjunct1, THEN mp, OF disjI1 [OF pB]] have nB: "\<not> has_parent forkB" by blast
  from t [THEN conjunct2, THEN mp, OF safe]
  obtain s' f' st' where
    "migrate_loop example_migrator (example_env [] None) False [forkA, forkB] (0, 0)
       (say MsgStarting empty_state) = (Inr (s', f'), st')"
    "perform_migration example_migrator (example_env [] None) False [forkA, forkB]
          empty_state =
          (Inr (), st'\<lparr>out := out st' @ [MsgComplete, MsgSuccessful s'] @
                              (if 0 < f' then [MsgFailed f'] else [])\<rparr>)"
    "s' + f' = length (filter has_parent [forkA, forkB])"
    "calls st' = calls empty_state @
       (if False then [] else map (fork_call example_migrator) (filter has_parent [forkA, forkB]))"
    "List.map_filter fork_target (out st') =
       List.map_filter fork_target (out empty_state) @
       map parent_name (filter has_parent [forkA, forkB])"
    "List.map_filter no_parent_name (out st') =
       List.map_filter no_parent_name (out empty_state) @
       map nameWithOwner (filter (\<lambda>r. \<not> has_parent r) [forkA, forkB])"
    by blast
  then have "migrate_loop example_migrator (example_env [] None) False [forkA, forkB] (0, 0)
          (say MsgStarting empty_state) = (Inr (s', f'), st') \<and>
        perform_migration example_migrator (example_env [] None) False [forkA, forkB]
          empty_state =
          (Inr (), st'\<lparr>out := out st' @ [MsgComplete, MsgSuccessful s'] @
                              (if 0 < f' then [MsgFailed f'] else [])\<rparr>) \<and>
        s' + f' = 1 \<and>
        calls st' = [([''repo'', ''fork'', ''up/a'', ''--fork-name'', ''a''], ''tgt-token'')] \<and>
        List.map_filter fork_target (out st') = [JStr ''up/a''] \<and>
        List.map_filter no_parent_name (out st') = [''alice/b'']"
    by (simp add: hA hB call empty_state_def List.map_filter_simps)
  moreover from safe have "loop_safe False forkA" "loop_safe False forkB" by simp_all
  ultimately show ?thesis using pB nB by blast
qed

subsection \<open>Claim C10\<close>

text \<open>
  Claim C10: the lower-cased answer is \<^verbatim>\<open>y\<close> for the answers \<^verbatim>\<open>y\<close> and \<^verbatim>\<open>Y\<close>
  and for no other; \<^verbatim>\<open>yes\<close> is not one of them. The confirmation goes on exactly
  for these two, and with any other answer a run that has candidates ends with the
  cancellation, having printed the summary and the question.
\<close>

theorem confirmation_only_y:
  "(py_lower reply = ''y'') = (reply = ''y'' \<or> reply = ''Y'')
   \<and> py_lower ''yes'' \<noteq> ''y''
   \<and> (stdin_line e = Some reply \<longrightarrow>
        fst (confirm_migration m e n st) = Inr (reply = ''y'' \<or> reply = ''Y''))
   \<and> (stdin_line e = Some reply \<and> reply \<noteq> ''y'' \<and> reply \<noteq> ''Y'' \<and>
      get_forked_repositories m e st = (forks, st1) \<and>
      filter_repositories (set (map fst l)) forks ([], []) = (tm, sk) \<and> tm \<noteq> [] \<longrightarrow>
      migrate_repositories m e l False st =
        (Inr (), st1\<lparr>out := out st1 @ summary_lines l forks tm sk @
                        [MsgAboutToMigrate (length tm) (target_username m), MsgCancelled]\<rparr>))"
proof (intro conjI impI)
  show "(py_lower reply = ''y'') = (reply = ''y'' \<or> reply = ''Y'')" by (rule py_lower_y)
  show "py_lower ''yes'' \<noteq> ''y''" by (simp add: py_lower_y)
next
  assume "stdin_line e = Some reply"
  then show "fst (confirm_migration m e n st) = Inr (reply = ''y'' \<or> reply = ''Y'')"
    using py_lower_y [of reply] by (simp add: confirm_migration_def Let_def)
next
  assume a: "stdin_line e = Some reply \<and> reply \<noteq> ''y'' \<and> reply \<noteq> ''Y'' \<and>
      get_forked_repositories m e st = (forks, st1) \<and>
      filter_repositories (set (map fst l)) forks ([], []) = (tm, sk) \<and> tm \<noteq> []"
  then have "py_lower reply \<noteq> ''y''" by (simp add: py_lower_y)
  with a show "migrate_repositories m e l False st =
        (Inr (), st1\<lparr>out := out st1 @ summary_lines l forks tm sk @
                        [MsgAboutToMigrate (length tm) (target_username m), MsgCancelled]\<rparr>)"
    by (intro migrate_cancel) simp_all
qed

text \<open>
  C10 on the listing \<open>[A]\<close> answered \<^verbatim>\<open>yes\<close>: the run is cancelled.
\<close>

theorem confirmation_only_y_witness:
  "stdin_line (example_env [forkA] (Some ''yes'')) = Some ''yes''
   \<and> ''yes'' \<noteq> ''y'' \<and> ''yes'' \<noteq> ''Y''
   \<and> get_forked_repositories example_migrator (example_env [forkA] (Some ''yes'')) empty_state =
       ([forkA], \<lparr>calls = [(list_args example_migrator, ''src-token'')],
                  out = [MsgFetching ''alice'', MsgForkCount 1]\<rparr>)
   \<and> filter_repositories (set (map fst ([] :: (string \<times> local_info) list))) [forkA] ([], []) =
       ([forkA], [])
   \<and> [forkA] \<noteq> []
   \<and> fst (confirm_migration example_migrator (example_env [forkA] (Some ''yes'')) 1 empty_state) =
       Inr False
   \<and> migrate_repositories example_migrator (example_env [forkA] (Some ''yes'')) [] False
       empty_state =
       (Inr (),
        \<lparr>calls = [(list_args example_migrator, ''src-token'')],
         out = [MsgFetching ''alice'', MsgForkCount 1, MsgSummary 1 1 0,
                MsgAboutToMigrate 1 ''bob'', MsgCancelled]\<rparr>)"
proof -
  have r: "stdin_line (example_env [forkA] (Some ''yes'')) = Some ''yes''"
    by (simp add: example_env_def)
  have n: "''yes'' \<noteq> ''y''" "''yes'' \<noteq> ''Y''" by simp_all
  have g: "get_forked_repositories example_migrator (example_env [forkA] (Some ''yes'')) empty_state =
       ([forkA], \<lparr>calls = [(list_args example_migrator, ''src-token'')],
                  out = [MsgFetching ''alice'', MsgForkCount 1]\<rparr>)"
    by code_simp
  have f: "filter_repositories (set (map fst ([] :: (string \<times> local_info) list))) [forkA] ([], []) =
       ([forkA], [])"
    by simp
  have ne: "[forkA] \<noteq> []" by simp
  note t = confirmation_only_y [where reply="''yes''" and e="example_env [forkA] (Some ''yes'')"
      and m=example_migrator and n=1 and st=empty_state and forks="[forkA]" and l="[]"
      and tm="[forkA]" and sk="[]"]
  from t [THEN conjunct2, THEN conjunct2, THEN conjunct1, rule_format, OF r] n
  have c: "fst (confirm_migration example_migrator (example_env [forkA] (Some ''yes'')) 1
             empty_state) = Inr False"
    by simp
  from t [THEN conjunct2, THEN conjunct2, THEN conjunct2, rule_format,
      OF conjI [OF r conjI [OF n(1) conjI [OF n(2) conjI [OF g conjI [OF f ne]]]]]]
  have "migrate_repositories example_migrator (example_env [forkA] (Some ''yes'')) [] False
       empty_state =
       (Inr (),
        \<lparr>calls = [(list_args example_migrator, ''src-token'')],
         out = [MsgFetching ''alice'', MsgForkCount 1, MsgSummary 1 1 0,
                MsgAboutToMigrate 1 ''bob'', MsgCancelled]\<rparr>)"
    by (simp add: summary_lines_def example_migrator_def)
  with r n g f ne c show ?thesis by blast
qed

end
